theory Spec2Isabelle
  imports Main
begin

section \<open>Data model of the client (the interfaces of \<^verbatim>\<open>types\<close>)\<close>

text \<open>
  The TypeScript interfaces \<^verbatim>\<open>Node\<close>, \<^verbatim>\<open>Session\<close>, \<^verbatim>\<open>ChatStreamChunk\<close>,
  \<^verbatim>\<open>SiblingsResponse\<close> and \<^verbatim>\<open>TreeResponse\<close>. A field that is \<^verbatim>\<open>T | null\<close> or optional
  is an \<open>option\<close>. Field names that would clash between two interfaces (or with a
  constant of HOL) carry a suffix: \<open>id_n\<close> is \<^verbatim>\<open>Node.id\<close>, \<open>id_s\<close> is \<^verbatim>\<open>Session.id\<close>.
\<close>

datatype role = User | Assistant | System

record node =
  id_n :: string
  session_id :: string
  parent_id :: "string option"
  role :: role
  content :: string
  created_at :: string
  model :: "string option"
  is_active :: bool

record session =
  id_s :: string
  name_s :: string
  created_at_s :: string
  updated_at_s :: string

record TreeResponse =
  session_id_t :: string
  nodes_t :: "node list"

text \<open>\<^verbatim>\<open>ChatStreamChunk\<close>; \<open>done_c\<close> is its field \<^verbatim>\<open>done\<close>, \<open>error_c\<close> its field \<^verbatim>\<open>error\<close>.\<close>

record ChatStreamChunk =
  token :: string
  node_id :: string
  user_node_id :: "string option"
  done_c :: bool
  full_content :: "string option"
  error_c :: "bool option"

section \<open>The hook \<^verbatim>\<open>useChat\<close>: client state and its operations\<close>

text \<open>
  The nine \<^verbatim>\<open>useState\<close> cells of the hook, as one record. Every operation takes the
  state and returns the state it leaves, together with how its promise settles.
\<close>

record chat_state =
  sessions :: "session list"
  currentSession :: "session option"
  nodes :: "node list"
  activeNodeId :: "string option"
  currentPath :: "node list"
  isStreaming :: bool
  streamingContent :: string
  pendingUserMessage :: "string option"
  selectedModel :: string

datatype outcome = Resolved | Rejected

text \<open>
  The server as the hook sees it through \<^verbatim>\<open>api\<close>: what each request answers.
  \<open>None\<close> (or \<open>False\<close> for the request without a value) is a promise that rejects,
  as \<^verbatim>\<open>fetch\<close> does when the network fails.
\<close>

record api =
  api_getSessions :: "session list option"
  api_getSessionTree :: "string \<Rightarrow> TreeResponse option"
  api_getNodePath :: "string \<Rightarrow> node list option"
  api_deleteSession :: "string \<Rightarrow> bool"

definition loadSessions :: "api \<Rightarrow> chat_state \<Rightarrow> outcome \<times> chat_state" where
  "loadSessions a st =
     (case api_getSessions a of
        None \<Rightarrow> (Rejected, st)
      | Some d \<Rightarrow> (Resolved, st\<lparr>sessions := d\<rparr>))"

text \<open>\<^verbatim>\<open>currentSession?.id === sessionId\<close>: false when there is no current session.\<close>

definition is_current :: "chat_state \<Rightarrow> string \<Rightarrow> bool" where
  "is_current st sessionId =
     (case currentSession st of None \<Rightarrow> False | Some s \<Rightarrow> id_s s = sessionId)"

definition deleteSession :: "api \<Rightarrow> string \<Rightarrow> chat_state \<Rightarrow> outcome \<times> chat_state" where
  "deleteSession a sessionId st =
     (if \<not> api_deleteSession a sessionId then (Rejected, st)
      else
        let st1 =
          (if is_current st sessionId
           then st\<lparr>currentSession := None, nodes := [], currentPath := [], activeNodeId := None\<rparr>
           else st)
        in loadSessions a st1)"

text \<open>
  \<^verbatim>\<open>updatePath\<close>: asks the server for the path of the node, then stores the path and
  the node id.
\<close>

definition updatePath :: "api \<Rightarrow> string \<Rightarrow> chat_state \<Rightarrow> outcome \<times> chat_state" where
  "updatePath a nodeId st =
     (case api_getNodePath a nodeId of
        None \<Rightarrow> (Rejected, st)
      | Some path \<Rightarrow> (Resolved, st\<lparr>currentPath := path, activeNodeId := Some nodeId\<rparr>))"

text \<open>
  \<^verbatim>\<open>new Date(a.created_at) > new Date(b.created_at)\<close>. The parameter \<open>date\<close> is the time
  value \<^verbatim>\<open>new Date(s)\<close> holds, in milliseconds, and \<open>None\<close> for an invalid date, whose
  time value is NaN: every comparison with it is false.
\<close>

definition date_gt :: "(string \<Rightarrow> int option) \<Rightarrow> string \<Rightarrow> string \<Rightarrow> bool" where
  "date_gt date a b =
     (case date a of
        None \<Rightarrow> False
      | Some x \<Rightarrow> (case date b of None \<Rightarrow> False | Some y \<Rightarrow> y < x))"

text \<open>
  \<^verbatim>\<open>tree.nodes.map(n => n.parent_id).filter(Boolean)\<close>: the parent ids that are neither
  \<^verbatim>\<open>null\<close> nor the empty string (both are falsy).
\<close>

definition parentIds :: "node list \<Rightarrow> string list" where
  "parentIds ns = filter (\<lambda>p. p \<noteq> []) (List.map_filter parent_id ns)"

definition leafNodes :: "node list \<Rightarrow> node list" where
  "leafNodes ns = filter (\<lambda>n. id_n n \<notin> set (parentIds ns)) ns"

text \<open>
  \<^verbatim>\<open>Array.prototype.reduce\<close> without an initial value: the first element starts the
  accumulator; on an empty array it throws (\<open>None\<close>).
\<close>

definition reduce :: "('a \<Rightarrow> 'a \<Rightarrow> 'a) \<Rightarrow> 'a list \<Rightarrow> 'a option" where
  "reduce f xs = (case xs of [] \<Rightarrow> None | x # rest \<Rightarrow> Some (foldl f x rest))"

definition later_of :: "(string \<Rightarrow> int option) \<Rightarrow> node \<Rightarrow> node \<Rightarrow> node" where
  "later_of date a b = (if date_gt date (created_at a) (created_at b) then a else b)"

definition selectSession ::
  "(string \<Rightarrow> int option) \<Rightarrow> api \<Rightarrow> session \<Rightarrow> chat_state \<Rightarrow> outcome \<times> chat_state" where
  "selectSession date a s st =
     (let st1 = st\<lparr>currentSession := Some s\<rparr> in
      case api_getSessionTree a (id_s s) of
        None \<Rightarrow> (Rejected, st1)
      | Some tree \<Rightarrow>
          let st2 = st1\<lparr>nodes := nodes_t tree\<rparr> in
          if length (nodes_t tree) > 0 then
            (let leaves = leafNodes (nodes_t tree) in
             if length leaves > 0 then
               (case reduce (later_of date) leaves of
                  None \<Rightarrow> (Rejected, st2)
                | Some latestLeaf \<Rightarrow> updatePath a (id_n latestLeaf) st2)
             else (Resolved, st2))
          else (Resolved, st2\<lparr>currentPath := [], activeNodeId := None\<rparr>))"

section \<open>The stream readers of \<^verbatim>\<open>api\<close>\<close>

text \<open>
  A string is the list of its code units; the model's strings hold code units below 256.
  The response body arrives in chunks; \<^verbatim>\<open>decoder.decode(value, {stream: true})\<close> is the
  text of a chunk (a streaming decoder keeps a split multi-byte sequence for the next
  chunk, so the texts of the chunks concatenate to the text of the body), and the model
  starts from these texts.
\<close>

definition newline :: char where
  "newline = CHR 0x0A"

text \<open>\<^verbatim>\<open>buffer.split('\n')\<close>: the pieces between the newlines, always at least one.\<close>

fun split_nl :: "string \<Rightarrow> string list" where
  "split_nl [] = [[]]"
| "split_nl (c # cs) =
     (if c = newline then [] # split_nl cs
      else (case split_nl cs of [] \<Rightarrow> [[c]] | l # ls \<Rightarrow> (c # l) # ls))"

text \<open>
  \<^verbatim>\<open>line.trim()\<close> removes white space and line terminators at both ends: among the
  code units below 256 these are tab, line feed, vertical tab, form feed, carriage
  return, space and the no-break space.
\<close>

definition isWhiteSpace :: "char \<Rightarrow> bool" where
  "isWhiteSpace c =
     (c \<in> set [CHR 0x09, CHR 0x0A, CHR 0x0B, CHR 0x0C, CHR 0x0D, CHR 0x20, CHR 0xA0])"

definition trim :: "string \<Rightarrow> string" where
  "trim s = rev (dropWhile isWhiteSpace (rev (dropWhile isWhiteSpace s)))"

text \<open>\<^verbatim>\<open>lines.pop()\<close>: the last element and the array without it; \<^verbatim>\<open>undefined\<close> on \<open>[]\<close>.\<close>

definition pop :: "'a list \<Rightarrow> 'a option \<times> 'a list" where
  "pop xs = (if xs = [] then (None, []) else (Some (last xs), butlast xs))"

text \<open>
  The \<^verbatim>\<open>for\<close> loop over the lines: a line that is not blank is handed to
  \<^verbatim>\<open>JSON.parse\<close> (the parameter \<open>parse\<close>, \<open>None\<close> when it throws) and its value is
  yielded; the \<^verbatim>\<open>catch\<close> drops a line that does not parse.
\<close>

definition yield_lines :: "(string \<Rightarrow> 'j option) \<Rightarrow> string list \<Rightarrow> 'j list" where
  "yield_lines parse lines =
     List.map_filter (\<lambda>line. if trim line \<noteq> [] then parse line else None) lines"

text \<open>
  The \<^verbatim>\<open>while (true)\<close> loop, from a buffer and the chunks still to come, until the
  reader reports \<^verbatim>\<open>done\<close>: the values it yields, in order.
\<close>

fun read_chunks :: "(string \<Rightarrow> 'j option) \<Rightarrow> string \<Rightarrow> string list \<Rightarrow> 'j list" where
  "read_chunks parse buffer [] = []"
| "read_chunks parse buffer (v # rest) =
     (let buffer1 = buffer @ v;
          (popped, lines) = pop (split_nl buffer1);
          buffer2 = (case popped of None \<Rightarrow> [] | Some l \<Rightarrow> if l = [] then [] else l)
      in yield_lines parse lines @ read_chunks parse buffer2 rest)"

text \<open>
  What \<^verbatim>\<open>fetch\<close> answers: a promise that rejects, a response without a body, or a body
  whose chunks arrive one by one, after which the reader reports the end or, when the
  connection breaks, rejects.
\<close>

datatype response = FetchRejected | NoBody | Body "string list" bool

datatype request =
  ChatCompletions string "string option" string string
| BranchNode string string
| ContinueNode string string string string

text \<open>How a generator ends once its values are consumed: it returns or it throws.\<close>

datatype ending = Returned | Threw

text \<open>The body of the three generators, which share it word for word.\<close>

definition read_response :: "(string \<Rightarrow> 'j option) \<Rightarrow> response \<Rightarrow> 'j list \<times> ending" where
  "read_response parse res =
     (case res of
        FetchRejected \<Rightarrow> ([], Threw)
      | NoBody \<Rightarrow> ([], Threw)
      | Body cs broken \<Rightarrow> (read_chunks parse [] cs, if broken then Threw else Returned))"

definition streamChat ::
  "(string \<Rightarrow> 'j option) \<Rightarrow> (request \<Rightarrow> response) \<Rightarrow>
   string \<Rightarrow> string \<Rightarrow> string option \<Rightarrow> string \<Rightarrow> 'j list \<times> ending" where
  "streamChat parse fetch sessionId msg parentId mdl =
     read_response parse (fetch (ChatCompletions sessionId parentId msg mdl))"

definition streamBranch ::
  "(string \<Rightarrow> 'j option) \<Rightarrow> (request \<Rightarrow> response) \<Rightarrow> string \<Rightarrow> string \<Rightarrow> 'j list \<times> ending" where
  "streamBranch parse fetch nodeId mdl = read_response parse (fetch (BranchNode nodeId mdl))"

definition streamContinue ::
  "(string \<Rightarrow> 'j option) \<Rightarrow> (request \<Rightarrow> response) \<Rightarrow>
   string \<Rightarrow> string \<Rightarrow> string \<Rightarrow> string \<Rightarrow> 'j list \<times> ending" where
  "streamContinue parse fetch parentId msg sessionId mdl =
     read_response parse (fetch (ContinueNode parentId msg sessionId mdl))"

text \<open>
  The received text as complete lines, each ended by a newline, and the fragment after
  the last newline.
\<close>

definition join_lines :: "string list \<Rightarrow> string \<Rightarrow> string" where
  "join_lines ls frag = concat (map (\<lambda>l. l @ [newline]) ls) @ frag"

definition no_newline :: "string \<Rightarrow> bool" where
  "no_newline l = (newline \<notin> set l)"

section \<open>Sending a message: \<^verbatim>\<open>sendMessage\<close> of \<^verbatim>\<open>useChat\<close>\<close>

definition refreshTree :: "api \<Rightarrow> chat_state \<Rightarrow> outcome \<times> chat_state" where
  "refreshTree a st =
     (case currentSession st of
        None \<Rightarrow> (Resolved, st)
      | Some s \<Rightarrow>
          (case api_getSessionTree a (id_s s) of
             None \<Rightarrow> (Rejected, st)
           | Some tree \<Rightarrow> (Resolved, st\<lparr>nodes := nodes_t tree\<rparr>)))"

text \<open>
  One turn of the \<^verbatim>\<open>for await\<close> loop, on the locals \<^verbatim>\<open>newAssistantNodeId\<close> and
  \<^verbatim>\<open>fullContent\<close> and the state: a truthy \<^verbatim>\<open>node_id\<close> is remembered, and the token of a
  chunk that is not \<^verbatim>\<open>done\<close> is appended and shown.
\<close>

definition consume_chunk ::
  "string option \<times> string \<times> chat_state \<Rightarrow> ChatStreamChunk \<Rightarrow> string option \<times> string \<times> chat_state" where
  "consume_chunk loc chunk =
     (case loc of (newAssistantNodeId, fullContent, st) \<Rightarrow>
        let newId = (if node_id chunk \<noteq> [] then Some (node_id chunk) else newAssistantNodeId)
        in if \<not> done_c chunk
           then (newId, fullContent @ token chunk,
                 st\<lparr>streamingContent := fullContent @ token chunk\<rparr>)
           else (newId, fullContent, st))"

definition sendMessage_loop ::
  "chat_state \<Rightarrow> ChatStreamChunk list \<Rightarrow> string option \<times> string \<times> chat_state" where
  "sendMessage_loop st chunks = foldl consume_chunk (None, [], st) chunks"

definition sendMessage ::
  "(string \<Rightarrow> ChatStreamChunk option) \<Rightarrow> (request \<Rightarrow> response) \<Rightarrow> api \<Rightarrow> string \<Rightarrow>
   chat_state \<Rightarrow> outcome \<times> chat_state" where
  "sendMessage parse fetch a msg st =
     (case currentSession st of
        None \<Rightarrow> (Resolved, st)
      | Some cur \<Rightarrow>
          if isStreaming st then (Resolved, st)
          else
            let st1 = st\<lparr>isStreaming := True, streamingContent := [],
                         pendingUserMessage := Some msg\<rparr>;
                parentId = activeNodeId st;
                (chunks, e) = streamChat parse fetch (id_s cur) msg parentId (selectedModel st);
                (newAssistantNodeId, fullContent, st2) = sendMessage_loop st1 chunks;
                (out, st3) =
                  (case e of
                     Threw \<Rightarrow> (Rejected, st2)
                   | Returned \<Rightarrow>
                       (case refreshTree a st2 of
                          (Rejected, st') \<Rightarrow> (Rejected, st')
                        | (Resolved, st') \<Rightarrow>
                            (case newAssistantNodeId of
                               None \<Rightarrow> (Resolved, st')
                             | Some i \<Rightarrow> updatePath a i st')))
            in (out, st3\<lparr>isStreaming := False, streamingContent := [],
                         pendingUserMessage := None\<rparr>))"

section \<open>Diverge Mode: \<^verbatim>\<open>handleSendBoth\<close> of \<^verbatim>\<open>SplitView\<close>\<close>

text \<open>\<^verbatim>\<open>ThreadState\<close>, its fields with the suffix \<open>_t\<close>.\<close>

record ThreadState =
  input_t :: string
  messages_t :: "node list"
  isStreaming_t :: bool
  streamingContent_t :: string

text \<open>
  One of the two asynchronous functions \<^verbatim>\<open>streamLeft\<close> and \<^verbatim>\<open>streamRight\<close> while it
  runs: the chunks its generator has still to yield and how the generator ends, the local
  \<^verbatim>\<open>fullContent\<close>, whether it has called \<^verbatim>\<open>onRefresh\<close>, and how its promise has settled
  (\<open>None\<close> while it runs).
\<close>

record stream_task =
  incoming :: "ChatStreamChunk list"
  ends :: ending
  fullContent :: string
  refreshed :: bool
  settled :: "outcome option"

text \<open>The \<^verbatim>\<open>finally\<close> block.\<close>

definition finally_t :: "ThreadState \<Rightarrow> ThreadState" where
  "finally_t t = t\<lparr>isStreaming_t := False, streamingContent_t := [], input_t := []\<rparr>"

text \<open>
  One step of such a function, between two of its \<^verbatim>\<open>await\<close>s: it takes the next chunk,
  or, the generator exhausted, refreshes (when the generator returned; \<open>refresh_ok\<close> is
  whether \<^verbatim>\<open>onRefresh\<close> resolves) and runs the \<^verbatim>\<open>finally\<close> block. A settled function
  does nothing more.
\<close>

definition stream_step :: "bool \<Rightarrow> stream_task \<times> ThreadState \<Rightarrow> stream_task \<times> ThreadState" where
  "stream_step refresh_ok p =
     (case p of (task, t) \<Rightarrow>
        case settled task of
          Some _ \<Rightarrow> (task, t)
        | None \<Rightarrow>
            (case incoming task of
               chunk # rest \<Rightarrow>
                 if \<not> done_c chunk
                 then (task\<lparr>incoming := rest, fullContent := fullContent task @ token chunk\<rparr>,
                       t\<lparr>streamingContent_t := fullContent task @ token chunk\<rparr>)
                 else (task\<lparr>incoming := rest\<rparr>, t)
             | [] \<Rightarrow>
                 (case ends task of
                    Threw \<Rightarrow> (task\<lparr>settled := Some Rejected\<rparr>, finally_t t)
                  | Returned \<Rightarrow>
                      (task\<lparr>refreshed := True,
                            settled := Some (if refresh_ok then Resolved else Rejected)\<rparr>,
                       finally_t t))))"

text \<open>
  The two functions run under \<^verbatim>\<open>Promise.all\<close>: whenever one of them waits, either may
  go on. A schedule says, step by step, which of the two takes its next step.
\<close>

datatype side = LeftSide | RightSide

record split_run =
  requests :: "request list"
  left :: "stream_task \<times> ThreadState"
  right :: "stream_task \<times> ThreadState"

definition step_side :: "bool \<Rightarrow> split_run \<Rightarrow> side \<Rightarrow> split_run" where
  "step_side refresh_ok r sd =
     (case sd of
        LeftSide \<Rightarrow> r\<lparr>left := stream_step refresh_ok (left r)\<rparr>
      | RightSide \<Rightarrow> r\<lparr>right := stream_step refresh_ok (right r)\<rparr>)"

definition start_task :: "ChatStreamChunk list \<times> ending \<Rightarrow> stream_task" where
  "start_task g =
     \<lparr>incoming = fst g, ends = snd g, fullContent = [], refreshed = False, settled = None\<rparr>"

text \<open>
  \<^verbatim>\<open>handleSendBoth\<close>, under a schedule. \<open>fetchL\<close> and \<open>fetchR\<close> are what the server
  answers to the first and to the second request. \<open>None\<close>: one of the two guards
  returned before anything was sent.
\<close>

definition handleSendBoth ::
  "(string \<Rightarrow> ChatStreamChunk option) \<Rightarrow> (request \<Rightarrow> response) \<Rightarrow> (request \<Rightarrow> response) \<Rightarrow>
   bool \<Rightarrow> string \<Rightarrow> node option \<Rightarrow> string \<Rightarrow> side list \<Rightarrow>
   ThreadState \<Rightarrow> ThreadState \<Rightarrow> split_run option" where
  "handleSendBoth parse fetchL fetchR refresh_ok sessionId parentNode mdl schedule
     leftThread rightThread =
     (if trim (input_t leftThread) = [] \<or> trim (input_t rightThread) = [] then None
      else if isStreaming_t leftThread \<or> isStreaming_t rightThread then None
      else
        let parentId =
              (case parentNode of
                 None \<Rightarrow> None
               | Some n \<Rightarrow> if id_n n = [] then None else Some (id_n n));
            l = leftThread\<lparr>isStreaming_t := True, streamingContent_t := []\<rparr>;
            r = rightThread\<lparr>isStreaming_t := True, streamingContent_t := []\<rparr>;
            start =
              \<lparr>requests =
                 [ChatCompletions sessionId parentId (input_t leftThread) mdl,
                  ChatCompletions sessionId parentId (input_t rightThread) mdl],
               left =
                 (start_task (streamChat parse fetchL sessionId (input_t leftThread) parentId mdl), l),
               right =
                 (start_task (streamChat parse fetchR sessionId (input_t rightThread) parentId mdl), r)\<rparr>
        in Some (foldl (step_side refresh_ok) start schedule))"

text \<open>One of the two functions run alone for \<open>k\<close> steps.\<close>

definition alone :: "bool \<Rightarrow> nat \<Rightarrow> stream_task \<times> ThreadState \<Rightarrow> stream_task \<times> ThreadState" where
  "alone refresh_ok k p = (stream_step refresh_ok ^^ k) p"

definition steps_of :: "side \<Rightarrow> side list \<Rightarrow> nat" where
  "steps_of sd schedule = length (filter (\<lambda>x. x = sd) schedule)"

text \<open>The parent id of a request for a completion.\<close>

definition request_parent :: "request \<Rightarrow> string option" where
  "request_parent q =
     (case q of
        ChatCompletions _ parentId _ _ \<Rightarrow> parentId
      | BranchNode _ _ \<Rightarrow> None
      | ContinueNode parentId _ _ _ \<Rightarrow> Some parentId)"

section \<open>The Completion Orchestrator of the specification\<close>

text \<open>
  Modelled from the spec: \<^verbatim>\<open>complete(context, pending_node_id, model)\<close> runs on the
  server, whose code is not among the sources. Given the tokens the model backend
  produced and whether it failed (by an error or an interruption; producing nothing
  counts as a failure too), the events are one per token, each with the token text and
  the owning node id, and a final event that signals completion, carries the full
  content the node is sealed with, and carries the failure as a field of its own.
\<close>

definition token_event :: "string \<Rightarrow> string \<Rightarrow> ChatStreamChunk" where
  "token_event nid t =
     \<lparr>token = t, node_id = nid, user_node_id = None, done_c = False,
      full_content = None, error_c = None\<rparr>"

text \<open>Modelled from the spec: the final event of \<^verbatim>\<open>complete\<close>.\<close>

definition final_event :: "string \<Rightarrow> string \<Rightarrow> bool \<Rightarrow> ChatStreamChunk" where
  "final_event nid sealed failure =
     \<lparr>token = [], node_id = nid, user_node_id = None, done_c = True,
      full_content = Some sealed, error_c = (if failure then Some True else None)\<rparr>"

text \<open>Modelled from the spec: the events of \<^verbatim>\<open>complete\<close>, in order.\<close>

definition complete :: "string \<Rightarrow> string list \<Rightarrow> bool \<Rightarrow> ChatStreamChunk list" where
  "complete nid tokens failed =
     map (token_event nid) tokens
     @ [final_event nid (concat tokens) (failed \<or> concat tokens = [])]"

section \<open>The component \<^verbatim>\<open>MessageBubble\<close>\<close>

record SiblingsResponse =
  siblings :: "node list"
  current_index :: int
  total :: int

text \<open>
  Reading \<^verbatim>\<open>xs[i]\<close> in JavaScript: the element when \<open>i\<close> is an index of the array,
  \<^verbatim>\<open>undefined\<close> (\<open>None\<close>) otherwise.
\<close>

definition js_index :: "'a list \<Rightarrow> int \<Rightarrow> 'a option" where
  "js_index xs i = (if 0 \<le> i \<and> i < int (length xs) then Some (xs ! nat i) else None)"

text \<open>
  What a click handler does: nothing, a call of \<^verbatim>\<open>onNavigate\<close> with a node id, or the
  \<^verbatim>\<open>TypeError\<close> of reading \<^verbatim>\<open>.id\<close> of \<^verbatim>\<open>undefined\<close>.
\<close>

datatype handler_result = NoNavigation | Navigate string | TypeError

definition handlePrevSibling :: "SiblingsResponse option \<Rightarrow> handler_result" where
  "handlePrevSibling sibs =
     (case sibs of
        None \<Rightarrow> NoNavigation
      | Some r \<Rightarrow>
          if current_index r > 0 then
            (case js_index (siblings r) (current_index r - 1) of
               None \<Rightarrow> TypeError
             | Some prevSibling \<Rightarrow> Navigate (id_n prevSibling))
          else NoNavigation)"

definition handleNextSibling :: "SiblingsResponse option \<Rightarrow> handler_result" where
  "handleNextSibling sibs =
     (case sibs of
        None \<Rightarrow> NoNavigation
      | Some r \<Rightarrow>
          if current_index r < total r - 1 then
            (case js_index (siblings r) (current_index r + 1) of
               None \<Rightarrow> TypeError
             | Some nextSibling \<Rightarrow> Navigate (id_n nextSibling))
          else NoNavigation)"

text \<open>\<^verbatim>\<open>siblings && siblings.total > 1\<close>\<close>

definition hasSiblings :: "SiblingsResponse option \<Rightarrow> bool" where
  "hasSiblings sibs = (case sibs of None \<Rightarrow> False | Some r \<Rightarrow> total r > 1)"

text \<open>
  What the component renders: the sibling navigation (when it is rendered, whether its
  two buttons are disabled, and its counter), the text shown, whether the Regenerate
  button is there, and the branch indicator.
\<close>

record sibling_nav =
  prev_disabled :: bool
  counter :: "int \<times> int"
  next_disabled :: bool

record bubble =
  header_nav :: "sibling_nav option"
  shown_content :: string
  regenerate_button :: bool
  branch_indicator :: "int option"

definition MessageBubble ::
  "node \<Rightarrow> bool \<Rightarrow> string \<Rightarrow> SiblingsResponse option \<Rightarrow> bubble" where
  "MessageBubble nd streaming streamed sibs =
     (let isUser = (role nd = User) in
      \<lparr>header_nav =
         (case sibs of
            None \<Rightarrow> None
          | Some r \<Rightarrow>
              if \<not> isUser \<and> hasSiblings sibs
              then Some \<lparr>prev_disabled = (current_index r = 0),
                         counter = (current_index r + 1, total r),
                         next_disabled = (current_index r = total r - 1)\<rparr>
              else None),
       shown_content = (if streaming then streamed else content nd),
       regenerate_button = (\<not> isUser \<and> \<not> streaming),
       branch_indicator =
         (case sibs of
            None \<Rightarrow> None
          | Some r \<Rightarrow>
              if \<not> isUser \<and> \<not> streaming \<and> hasSiblings sibs then Some (total r) else None)\<rparr>)"

section \<open>The conversation tree of the specification\<close>

datatype error =
  NotFound | InvalidState | InvalidRole | Conflict | CorruptTree | EmptyTree | BackendFailure

text \<open>
  The invariants the specification gives the nodes of a session (its section 3): the
  tree is built by insertion, and a child is inserted only after its parent, in the same
  session, under a fresh identity. The list holds the nodes newest first.
\<close>

fun store_ok :: "node list \<Rightarrow> bool" where
  "store_ok [] = True"
| "store_ok (n # ns) =
     (id_n n \<notin> set (map id_n ns)
      \<and> (case parent_id n of
            None \<Rightarrow> True
          | Some p \<Rightarrow> list_ex (\<lambda>m. id_n m = p \<and> session_id m = session_id n) ns)
      \<and> store_ok ns)"

text \<open>A leaf, in the words of the specification: a node with no children.\<close>

definition is_leaf :: "node list \<Rightarrow> node \<Rightarrow> bool" where
  "is_leaf ns l = (l \<in> set ns \<and> Some (id_n l) \<notin> parent_id ` set ns)"

definition date_le :: "(string \<Rightarrow> int option) \<Rightarrow> node \<Rightarrow> node \<Rightarrow> bool" where
  "date_le date a b =
     (case date (created_at a) of
        None \<Rightarrow> False
      | Some x \<Rightarrow> (case date (created_at b) of None \<Rightarrow> False | Some y \<Rightarrow> x \<le> y))"

text \<open>
  \<^verbatim>\<open>defaultLeaf(session_id)\<close>, in the words of the specification, as the answers it
  allows for the nodes of the session: \<open>EmptyTree\<close> for a session with no nodes, and
  otherwise a leaf whose \<^verbatim>\<open>created_at\<close> is the maximum among all leaves. The client's
  \<^verbatim>\<open>selectSession\<close> is compared with it.
\<close>

definition defaultLeaf :: "(string \<Rightarrow> int option) \<Rightarrow> node list \<Rightarrow> error + node \<Rightarrow> bool" where
  "defaultLeaf date ns r =
     (case r of
        Inl e \<Rightarrow> e = EmptyTree \<and> ns = []
      | Inr l \<Rightarrow> is_leaf ns l \<and> list_all (\<lambda>l'. \<not> is_leaf ns l' \<or> date_le date l' l) ns)"

subsection \<open>Tree Navigator\<close>

text \<open>
  Modelled from the spec: the Node Store and the Tree Navigator (\<^verbatim>\<open>getNode\<close>,
  \<^verbatim>\<open>pathTo\<close>, \<^verbatim>\<open>siblingsOf\<close>) run on the server, whose code is not among the sources;
  the client only fetches their answers (\<^verbatim>\<open>getNodePath\<close>, \<^verbatim>\<open>getNodeSiblings\<close>). The
  store's nodes are a list, newest first, so that the reversed list is the creation
  sequence.
\<close>

definition getNode :: "node list \<Rightarrow> string \<Rightarrow> node option" where
  "getNode ns i = find (\<lambda>n. id_n n = i) ns"

text \<open>
  Modelled from the spec: \<^verbatim>\<open>pathTo(node_id)\<close> walks the parent pointers from the node
  to the root and answers the sequence root first. The walk remembers the ids it has
  passed: meeting one again is a cycle, reported as \<open>CorruptTree\<close>, as is a parent
  that does not resolve. A node id that does not exist is \<open>NotFound\<close>.
\<close>

function walk :: "node list \<Rightarrow> string list \<Rightarrow> string \<Rightarrow> node list \<Rightarrow> error + node list" where
  "walk ns visited cur acc =
     (case getNode ns cur of
        None \<Rightarrow> Inl CorruptTree
      | Some n \<Rightarrow>
          if cur \<in> set visited then Inl CorruptTree
          else
            (case parent_id n of
               None \<Rightarrow> Inr (n # acc)
             | Some p \<Rightarrow> walk ns (cur # visited) p (n # acc)))"
  by pat_completeness auto
termination
proof (relation "measure (\<lambda>(ns, visited, cur, acc). card (id_n ` set ns - set visited))")
  show "wf (measure (\<lambda>(ns, visited, cur, acc). card (id_n ` set ns - set visited)))"
    by simp
next
  fix ns :: "node list" and visited :: "string list" and cur :: string
    and acc :: "node list" and n :: node and p :: string
  assume found: "getNode ns cur = Some n" and fresh: "cur \<notin> set visited"
  from found have "n \<in> set ns \<and> id_n n = cur"
    by (auto simp: getNode_def find_Some_iff)
  then have mem: "cur \<in> id_n ` set ns - set visited"
    using fresh by auto
  have fin: "finite (id_n ` set ns - set visited)"
    by simp
  have "id_n ` set ns - set (cur # visited) = (id_n ` set ns - set visited) - {cur}"
    by auto
  then have "card (id_n ` set ns - set (cur # visited)) < card (id_n ` set ns - set visited)"
    using card_Diff1_less [OF fin mem] by simp
  then show "((ns, cur # visited, p, n # acc), (ns, visited, cur, acc))
      \<in> measure (\<lambda>(ns, visited, cur, acc). card (id_n ` set ns - set visited))"
    by simp
qed

text \<open>
  Modelled from the spec: \<^verbatim>\<open>pathTo\<close> itself, \<open>NotFound\<close> on an id that does not exist
  and the walk from the node otherwise.
\<close>

definition pathTo :: "node list \<Rightarrow> string \<Rightarrow> error + node list" where
  "pathTo ns i =
     (case getNode ns i of
        None \<Rightarrow> Inl NotFound
      | Some n \<Rightarrow> walk ns [] i [])"

text \<open>
  What the specification asks of a path to \<open>n\<close>: it starts at a node with no parent,
  ends at \<open>n\<close>, every node is the parent of the next, all are nodes of the store, and no
  node id is repeated.
\<close>

fun linked :: "node list \<Rightarrow> bool" where
  "linked (a # b # rest) = (parent_id b = Some (id_n a) \<and> linked (b # rest))"
| "linked _ = True"

definition is_path :: "node list \<Rightarrow> node \<Rightarrow> node list \<Rightarrow> bool" where
  "is_path ns n p =
     (p \<noteq> [] \<and> parent_id (hd p) = None \<and> last p = n \<and> linked p
      \<and> distinct (map id_n p) \<and> set p \<subseteq> set ns)"

text \<open>
  Modelled from the spec: \<^verbatim>\<open>siblingsOf(node_id)\<close> answers the nodes that share the
  node's parent (for a root, the roots of its session), by \<^verbatim>\<open>created_at\<close> ascending
  with the creation sequence breaking ties (a stable sort of the creation sequence), the
  zero-based index of the node among them, and their number. The parameter \<open>time\<close> is
  the instant a \<^verbatim>\<open>created_at\<close> denotes.
\<close>

definition same_parent :: "node \<Rightarrow> node \<Rightarrow> bool" where
  "same_parent n m = (parent_id m = parent_id n \<and> session_id m = session_id n)"

definition index_of :: "string \<Rightarrow> node list \<Rightarrow> nat" where
  "index_of i xs = length (takeWhile (\<lambda>m. id_n m \<noteq> i) xs)"

text \<open>
  Modelled from the spec: \<^verbatim>\<open>siblingsOf\<close> itself, \<open>NotFound\<close> on an id that does not
  exist.
\<close>

definition siblingsOf :: "(string \<Rightarrow> int) \<Rightarrow> node list \<Rightarrow> string \<Rightarrow> error + SiblingsResponse" where
  "siblingsOf time ns i =
     (case getNode ns i of
        None \<Rightarrow> Inl NotFound
      | Some n \<Rightarrow>
          let sibs = sort_key (\<lambda>m. time (created_at m)) (filter (same_parent n) (rev ns))
          in Inr \<lparr>siblings = sibs, current_index = int (index_of i sibs),
                 total = int (length sibs)\<rparr>)"

subsection \<open>Branch Writer\<close>

text \<open>
  Modelled from the spec: the store with its session registry and the ids of the nodes
  still pending, \<^verbatim>\<open>createNode\<close> and \<^verbatim>\<open>branch\<close> (regenerate); the server's code is not
  among the sources. Every operation answers with the store it leaves. The identity and
  the creation time of a new node come from the environment.
\<close>

record store =
  store_sessions :: "string list"
  store_nodes :: "node list"
  store_pending :: "string list"

text \<open>
  Modelled from the spec: \<^verbatim>\<open>createNode\<close> fails with \<open>InvalidState\<close> when the session does
  not exist and with \<open>NotFound\<close> when the parent does not resolve within the session;
  otherwise the node is inserted, pending.
\<close>

definition createNode :: "node \<Rightarrow> store \<Rightarrow> (error + node) \<times> store" where
  "createNode n st =
     (if session_id n \<notin> set (store_sessions st) then (Inl InvalidState, st)
      else if (case parent_id n of
                 None \<Rightarrow> False
               | Some p \<Rightarrow>
                   \<not> list_ex (\<lambda>m. id_n m = p \<and> session_id m = session_id n) (store_nodes st))
      then (Inl NotFound, st)
      else (Inr n, st\<lparr>store_nodes := n # store_nodes st,
                      store_pending := id_n n # store_pending st\<rparr>))"

text \<open>
  Modelled from the spec: \<^verbatim>\<open>branch(node_id, model)\<close>. Regeneration applies to assistant
  turns only: any other node is \<open>InvalidRole\<close>. On an assistant node it inserts a new,
  empty, pending assistant node under the same parent and touches nothing else.
\<close>

definition branch :: "string \<Rightarrow> string \<Rightarrow> string \<Rightarrow> string \<Rightarrow> store \<Rightarrow> (error + node) \<times> store" where
  "branch nodeId mdl new_id now st =
     (case getNode (store_nodes st) nodeId of
        None \<Rightarrow> (Inl NotFound, st)
      | Some n \<Rightarrow>
          if role n \<noteq> Assistant then (Inl InvalidRole, st)
          else createNode
                 \<lparr>id_n = new_id, session_id = session_id n, parent_id = parent_id n,
                  role = Assistant, content = [], created_at = now, model = Some mdl,
                  is_active = False\<rparr> st)"

subsection \<open>Concrete inputs\<close>

definition demo_session :: "string \<Rightarrow> session" where
  "demo_session i = \<lparr>id_s = i, name_s = ''New Chat'', created_at_s = ''t0'', updated_at_s = ''t0''\<rparr>"

definition demo_node :: "string \<Rightarrow> string option \<Rightarrow> role \<Rightarrow> string \<Rightarrow> node" where
  "demo_node i p r t =
     \<lparr>id_n = i, session_id = ''s1'', parent_id = p, role = r, content = ''hello'',
      created_at = t, model = None, is_active = False\<rparr>"

definition demo_state :: chat_state where
  "demo_state =
     \<lparr>sessions = [demo_session ''s1'', demo_session ''s2''],
      currentSession = Some (demo_session ''s1''),
      nodes = [demo_node ''u1'' None User ''1''],
      activeNodeId = Some ''u1'',
      currentPath = [demo_node ''u1'' None User ''1''],
      isStreaming = False, streamingContent = [], pendingUserMessage = None,
      selectedModel = ''gemma3:4b''\<rparr>"

definition demo_tree :: TreeResponse where
  "demo_tree =
     \<lparr>session_id_t = ''s1'',
      nodes_t =
        [demo_node ''a2'' (Some ''u1'') Assistant ''2024-05-01T10:00:03'',
         demo_node ''a1'' (Some ''u1'') Assistant ''2024-05-01T10:00:02'',
         demo_node ''u1'' None User ''2024-05-01T10:00:01'']\<rparr>"

definition demo_date :: "string \<Rightarrow> int option" where
  "demo_date =
     map_of
       [(''2024-05-01T10:00:01'', 1714557601000),
        (''2024-05-01T10:00:02'', 1714557602000),
        (''2024-05-01T10:00:03'', 1714557603000),
        (''2024-05-01T10:00:04'', 1714557604000),
        (''2024-05-01T10:00:05'', 1714557605000)]"

definition demo_api :: api where
  "demo_api =
     \<lparr>api_getSessions = Some [demo_session ''s1''],
      api_getSessionTree =
        (\<lambda>i. if i = ''s1'' then Some demo_tree
             else if i = ''s2'' then Some \<lparr>session_id_t = ''s2'', nodes_t = []\<rparr>
             else None),
      api_getNodePath =
        (\<lambda>i. if i = ''a2''
             then Some [demo_node ''u1'' None User ''2024-05-01T10:00:01'',
                        demo_node ''a2'' (Some ''u1'') Assistant ''2024-05-01T10:00:03'']
             else None),
      api_deleteSession = (\<lambda>_. True)\<rparr>"

definition demo_siblings :: SiblingsResponse where
  "demo_siblings =
     \<lparr>siblings =
        [demo_node ''a1'' (Some ''u1'') Assistant ''2024-05-01T10:00:02'',
         demo_node ''a2'' (Some ''u1'') Assistant ''2024-05-01T10:00:03''],
      current_index = 0, total = 2\<rparr>"

definition demo_cycle :: "node list" where
  "demo_cycle =
     [demo_node ''a'' (Some ''b'') Assistant ''2'', demo_node ''b'' (Some ''a'') User ''1'']"

definition demo_time :: "string \<Rightarrow> int" where
  "demo_time s = (case demo_date s of None \<Rightarrow> 0 | Some t \<Rightarrow> t)"

text \<open>
  A session after Diverge Mode: two user prompts under the same assistant node, each a
  sibling of the other.
\<close>

definition demo_diverged :: "node list" where
  "demo_diverged =
     [demo_node ''u3'' (Some ''a1'') User ''2024-05-01T10:00:05'',
      demo_node ''u2'' (Some ''a1'') User ''2024-05-01T10:00:04'',
      demo_node ''a1'' (Some ''u1'') Assistant ''2024-05-01T10:00:02'',
      demo_node ''u1'' None User ''2024-05-01T10:00:01'']"

definition demo_user_siblings :: SiblingsResponse where
  "demo_user_siblings =
     \<lparr>siblings =
        [demo_node ''u2'' (Some ''a1'') User ''2024-05-01T10:00:04'',
         demo_node ''u3'' (Some ''a1'') User ''2024-05-01T10:00:05''],
      current_index = 0, total = 2\<rparr>"

definition demo_store :: store where
  "demo_store =
     \<lparr>store_sessions = [''s1''], store_nodes = nodes_t demo_tree, store_pending = []\<rparr>"

definition demo_json :: "string \<Rightarrow> int option" where
  "demo_json = map_of [(''17'', 17), (''42'', 42), (''9'', 9)]"

definition demo_fetch :: "request \<Rightarrow> response" where
  "demo_fetch q = Body [''17\<newline>{oo'', ''ps\<newline>  \<newline>4'', ''2\<newline>9''] False"

definition demo_parse :: "string \<Rightarrow> ChatStreamChunk option" where
  "demo_parse =
     map_of
       [(''token Hey'', token_event ''a1'' ''Hey''),
        (''token Hi'', token_event ''a2'' ''Hi''),
        (''token  you'', token_event ''a2'' '' you''),
        (''done Hi you'', final_event ''a2'' ''Hi you'' False)]"

definition demo_fetchL :: "request \<Rightarrow> response" where
  "demo_fetchL q = Body [''token Hey\<newline>tok'', ''en  th''] True"

definition demo_fetchR :: "request \<Rightarrow> response" where
  "demo_fetchR q = Body [''token Hi\<newline>token '', '' you\<newline>done Hi you\<newline>''] False"

definition demo_thread :: "string \<Rightarrow> ThreadState" where
  "demo_thread i = \<lparr>input_t = i, messages_t = [], isStreaming_t = False, streamingContent_t = []\<rparr>"

definition demo_schedule :: "side list" where
  "demo_schedule = [LeftSide, RightSide, LeftSide, RightSide, RightSide]"

section \<open>Theorems\<close>

lemma loadSessions_frame: "\<exists>ss. snd (loadSessions a st) = st\<lparr>sessions := ss\<rparr>"
proof (cases "api_getSessions a")
  case None
  then have "snd (loadSessions a st) = st\<lparr>sessions := sessions st\<rparr>"
    by (simp add: loadSessions_def)
  then show ?thesis by blast
next
  case (Some d)
  then have "snd (loadSessions a st) = st\<lparr>sessions := d\<rparr>"
    by (simp add: loadSessions_def)
  then show ?thesis by blast
qed

text \<open>
  Claim C10. \<^verbatim>\<open>deleteSession(sessionId)\<close> clears the current session, the node list,
  the current path and the active node id only when the deleted id is the current
  session's id. When another session is deleted (or there is no current session) the
  state it leaves is the state it found, but for the session list, whatever the server
  answers; when the current session is deleted and the request resolves, the four cells
  are \<open>None\<close>, \<open>[]\<close>, \<open>[]\<close> and \<open>None\<close>.
\<close>

theorem deleteSession_frame:
  "(\<not> is_current st sid \<longrightarrow> (\<exists>ss. snd (deleteSession a sid st) = st\<lparr>sessions := ss\<rparr>))
   \<and> (is_current st sid \<and> api_deleteSession a sid \<longrightarrow>
        (\<exists>ss. snd (deleteSession a sid st) =
           st\<lparr>currentSession := None, nodes := [], currentPath := [], activeNodeId := None,
              sessions := ss\<rparr>))"
proof (intro conjI impI)
  assume other: "\<not> is_current st sid"
  show "\<exists>ss. snd (deleteSession a sid st) = st\<lparr>sessions := ss\<rparr>"
  proof (cases "api_deleteSession a sid")
    case True
    with other have "deleteSession a sid st = loadSessions a st"
      by (simp add: deleteSession_def)
    then show ?thesis using loadSessions_frame [of a st] by simp
  next
    case False
    then have "snd (deleteSession a sid st) = st\<lparr>sessions := sessions st\<rparr>"
      by (simp add: deleteSession_def)
    then show ?thesis by blast
  qed
next
  assume cur: "is_current st sid \<and> api_deleteSession a sid"
  let ?st1 = "st\<lparr>currentSession := None, nodes := [], currentPath := [], activeNodeId := None\<rparr>"
  from cur have "deleteSession a sid st = loadSessions a ?st1"
    by (simp add: deleteSession_def)
  then show "\<exists>ss. snd (deleteSession a sid st) =
      st\<lparr>currentSession := None, nodes := [], currentPath := [], activeNodeId := None,
         sessions := ss\<rparr>"
    using loadSessions_frame [of a ?st1] by simp
qed

theorem deleteSession_frame_witness:
  "(\<exists>ss. snd (deleteSession demo_api ''s2'' demo_state) = demo_state\<lparr>sessions := ss\<rparr>)
   \<and> (\<exists>ss. snd (deleteSession demo_api ''s1'' demo_state) =
        demo_state\<lparr>currentSession := None, nodes := [], currentPath := [],
           activeNodeId := None, sessions := ss\<rparr>)"
proof -
  have other: "\<not> is_current demo_state ''s2''"
    by (simp add: is_current_def demo_state_def demo_session_def)
  have cur: "is_current demo_state ''s1'' \<and> api_deleteSession demo_api ''s1''"
    by (simp add: is_current_def demo_state_def demo_session_def demo_api_def)
  show ?thesis
    using deleteSession_frame [of demo_state "''s2''" demo_api] other
      deleteSession_frame [of demo_state "''s1''" demo_api] cur
    by blast
qed

lemma foldl_later:
  "\<forall>n \<in> set (x # xs). date (created_at n) \<noteq> None \<Longrightarrow>
   foldl (later_of date) x xs \<in> set (x # xs) \<and>
   (\<forall>n \<in> set (x # xs). date_le date n (foldl (later_of date) x xs))"
proof (induction xs arbitrary: x)
  case Nil
  then show ?case by (auto simp: date_le_def)
next
  case (Cons y ys)
  let ?z = "later_of date x y"
  have z: "?z = x \<or> ?z = y" by (simp add: later_of_def)
  have le: "date_le date x ?z \<and> date_le date y ?z"
    using Cons.prems by (auto simp: later_of_def date_le_def date_gt_def)
  have valid: "\<forall>n \<in> set (?z # ys). date (created_at n) \<noteq> None"
    using Cons.prems z by auto
  note IH = Cons.IH [OF valid]
  have tr: "\<And>a b c. date_le date a b \<Longrightarrow> date_le date b c \<Longrightarrow> date_le date a c"
    by (auto simp: date_le_def split: option.splits)
  show ?case using IH z le tr by (auto simp del: foldl_Cons simp add: foldl_Cons[symmetric]) 
qed

lemma set_map_filter_eq: "set (List.map_filter f xs) = {y. Some y \<in> f ` set xs}"
  by (induction xs) (auto split: option.splits simp: image_iff)

lemma set_parentIds: "set (parentIds ns) = {p. Some p \<in> parent_id ` set ns \<and> p \<noteq> []}"
  by (auto simp: parentIds_def set_map_filter_eq)

lemma leafNodes_is_leaf:
  assumes "\<forall>n \<in> set ns. id_n n \<noteq> []"
  shows "set (leafNodes ns) = {l. is_leaf ns l}"
  using assms by (auto simp: leafNodes_def is_leaf_def set_parentIds)

lemma store_ok_parent:
  "store_ok ns \<Longrightarrow> m \<in> set ns \<Longrightarrow> parent_id m = Some p \<Longrightarrow> p \<in> id_n ` set ns"
  by (induction ns) (auto simp: list_ex_iff)

lemma store_ok_newest_is_leaf:
  assumes "store_ok (n # ns)"
  shows "is_leaf (n # ns) n"
proof -
  have fresh: "id_n n \<notin> id_n ` set ns" and ok: "store_ok ns"
    using assms by simp_all
  have own: "parent_id n \<noteq> Some (id_n n)"
  proof
    assume p: "parent_id n = Some (id_n n)"
    with assms obtain m where "m \<in> set ns" "id_n m = id_n n"
      by (auto simp: list_ex_iff)
    then have "id_n n \<in> id_n ` set ns" by (metis imageI)
    with fresh show False by simp
  qed
  have others: "\<forall>m \<in> set ns. parent_id m \<noteq> Some (id_n n)"
    using store_ok_parent [OF ok] fresh by blast
  show ?thesis using own others by (auto simp: is_leaf_def image_iff)
qed

lemma is_leaf_set: "set xs = set ys \<Longrightarrow> is_leaf xs l = is_leaf ys l"
  by (simp add: is_leaf_def)

lemma selectSession_on_leaves:
  assumes tree: "api_getSessionTree a (id_s s) = Some tree"
    and leaves: "leafNodes (nodes_t tree) = x # xs"
  shows "selectSession date a s st =
         updatePath a (id_n (foldl (later_of date) x xs))
           (st\<lparr>currentSession := Some s, nodes := nodes_t tree\<rparr>)"
proof -
  have "nodes_t tree \<noteq> []" using leaves by (auto simp: leafNodes_def)
  then show ?thesis
    using tree leaves by (simp add: selectSession_def reduce_def)
qed

text \<open>
  Claim C3. For every non-empty session (its nodes built by insertion, each under an
  existing parent; identities non-empty and every \<^verbatim>\<open>created_at\<close> a valid date),
  \<^verbatim>\<open>selectSession\<close> restores the view at a leaf, a node whose id is the
  \<^verbatim>\<open>parent_id\<close> of no node of the session, whose \<^verbatim>\<open>created_at\<close> is the maximum among
  all leaves: it runs \<^verbatim>\<open>updatePath\<close> on that leaf, so that, when the path request
  resolves, the current path is the path of that leaf and the active node is the leaf.
\<close>

theorem selectSession_default_leaf:
  assumes tree: "api_getSessionTree a (id_s s) = Some tree"
    and nonempty: "nodes_t tree \<noteq> []"
    and built: "store_ok store" "set store = set (nodes_t tree)"
    and ids: "\<forall>n \<in> set (nodes_t tree). id_n n \<noteq> []"
    and dates: "\<forall>n \<in> set (nodes_t tree). date (created_at n) \<noteq> None"
  shows "\<exists>l. defaultLeaf date (nodes_t tree) (Inr l)
           \<and> selectSession date a s st =
               updatePath a (id_n l) (st\<lparr>currentSession := Some s, nodes := nodes_t tree\<rparr>)
           \<and> (\<forall>p. api_getNodePath a (id_n l) = Some p \<longrightarrow>
                 selectSession date a s st =
                   (Resolved, st\<lparr>currentSession := Some s, nodes := nodes_t tree,
                                 currentPath := p, activeNodeId := Some (id_n l)\<rparr>))"
proof -
  let ?ns = "nodes_t tree"
  obtain n rest where store: "store = n # rest"
    using nonempty built(2) by (cases store) auto
  have "is_leaf store n" using built(1) store store_ok_newest_is_leaf by blast
  then have "is_leaf ?ns n" using is_leaf_set [OF built(2)] by simp
  then have "n \<in> set (leafNodes ?ns)" using leafNodes_is_leaf [OF ids] by simp
  then obtain x xs where leaves: "leafNodes ?ns = x # xs"
    by (cases "leafNodes ?ns") auto
  let ?l = "foldl (later_of date) x xs"
  have sub: "set (x # xs) \<subseteq> set ?ns"
    using leaves by (metis filter_is_subset leafNodes_def)
  then have valid: "\<forall>n \<in> set (x # xs). date (created_at n) \<noteq> None"
    using dates by blast
  from foldl_later [OF valid]
  have mem: "?l \<in> set (x # xs)" and top: "\<forall>n \<in> set (x # xs). date_le date n ?l"
    by simp_all
  have leaf_l: "is_leaf ?ns ?l"
    using mem leaves leafNodes_is_leaf [OF ids] by auto
  have "\<forall>l' \<in> set ?ns. \<not> is_leaf ?ns l' \<or> date_le date l' ?l"
    using top leaves leafNodes_is_leaf [OF ids] by auto
  then have spec: "defaultLeaf date ?ns (Inr ?l)"
    using leaf_l by (simp add: defaultLeaf_def list_all_iff)
  have run: "selectSession date a s st =
      updatePath a (id_n ?l) (st\<lparr>currentSession := Some s, nodes := ?ns\<rparr>)"
    by (rule selectSession_on_leaves [OF tree leaves])
  have "\<forall>p. api_getNodePath a (id_n ?l) = Some p \<longrightarrow>
      selectSession date a s st =
        (Resolved, st\<lparr>currentSession := Some s, nodes := ?ns,
                      currentPath := p, activeNodeId := Some (id_n ?l)\<rparr>)"
    by (simp add: run updatePath_def)
  with spec run show ?thesis by blast
qed


theorem selectSession_default_leaf_witness:
  "defaultLeaf demo_date (nodes_t demo_tree)
     (Inr (demo_node ''a2'' (Some ''u1'') Assistant ''2024-05-01T10:00:03''))
   \<and> selectSession demo_date demo_api (demo_session ''s1'') demo_state =
       (Resolved,
        demo_state\<lparr>currentSession := Some (demo_session ''s1''), nodes := nodes_t demo_tree,
          currentPath :=
            [demo_node ''u1'' None User ''2024-05-01T10:00:01'',
             demo_node ''a2'' (Some ''u1'') Assistant ''2024-05-01T10:00:03''],
          activeNodeId := Some ''a2''\<rparr>)"
proof -
  let ?a2 = "demo_node ''a2'' (Some ''u1'') Assistant ''2024-05-01T10:00:03''"
  have tree: "api_getSessionTree demo_api (id_s (demo_session ''s1'')) = Some demo_tree"
    by (simp add: demo_api_def demo_session_def)
  have nonempty: "nodes_t demo_tree \<noteq> []"
    by (simp add: demo_tree_def)
  have built: "store_ok (nodes_t demo_tree)"
    by (simp add: demo_tree_def demo_node_def)
  have ids: "\<forall>n \<in> set (nodes_t demo_tree). id_n n \<noteq> []"
    by (simp add: demo_tree_def demo_node_def)
  have dates: "\<forall>n \<in> set (nodes_t demo_tree). demo_date (created_at n) \<noteq> None"
    by (simp add: demo_tree_def demo_node_def demo_date_def)
  from selectSession_default_leaf [OF tree nonempty built refl ids dates, of demo_state]
  obtain l where spec: "defaultLeaf demo_date (nodes_t demo_tree) (Inr l)"
    and path: "\<forall>p. api_getNodePath demo_api (id_n l) = Some p \<longrightarrow>
        selectSession demo_date demo_api (demo_session ''s1'') demo_state =
          (Resolved, demo_state\<lparr>currentSession := Some (demo_session ''s1''),
             nodes := nodes_t demo_tree, currentPath := p, activeNodeId := Some (id_n l)\<rparr>)"
    by blast
  from spec have l: "l = ?a2"
    by (auto simp: defaultLeaf_def is_leaf_def date_le_def demo_tree_def demo_node_def
        demo_date_def)
  have "api_getNodePath demo_api (id_n ?a2) =
      Some [demo_node ''u1'' None User ''2024-05-01T10:00:01'', ?a2]"
    by (simp add: demo_api_def demo_node_def)
  with spec path l show ?thesis by (simp add: demo_node_def)
qed

text \<open>
  Claim C7. For a session with no nodes the default-leaf query of the specification
  answers \<open>EmptyTree\<close> (and nothing else), and the client treats it as the absence of
  an active path: \<^verbatim>\<open>selectSession\<close> resolves, with the current path the empty sequence
  and the active node id \<^verbatim>\<open>null\<close>.
\<close>

theorem selectSession_empty_tree:
  assumes tree: "api_getSessionTree a (id_s s) = Some tree"
    and empty: "nodes_t tree = []"
  shows "defaultLeaf date (nodes_t tree) (Inl EmptyTree)
       \<and> (\<forall>r. defaultLeaf date (nodes_t tree) r \<longrightarrow> r = Inl EmptyTree)
       \<and> selectSession date a s st =
           (Resolved, st\<lparr>currentSession := Some s, nodes := [],
                         currentPath := [], activeNodeId := None\<rparr>)"
proof (intro conjI allI impI)
  show "defaultLeaf date (nodes_t tree) (Inl EmptyTree)"
    using empty by (simp add: defaultLeaf_def)
next
  fix r assume "defaultLeaf date (nodes_t tree) r"
  then show "r = Inl EmptyTree"
    using empty by (cases r) (auto simp: defaultLeaf_def is_leaf_def)
next
  show "selectSession date a s st =
           (Resolved, st\<lparr>currentSession := Some s, nodes := [],
                         currentPath := [], activeNodeId := None\<rparr>)"
    using tree empty by (simp add: selectSession_def)
qed

theorem selectSession_empty_tree_witness:
  "defaultLeaf demo_date [] (Inl EmptyTree)
   \<and> selectSession demo_date demo_api (demo_session ''s2'') demo_state =
       (Resolved, demo_state\<lparr>currentSession := Some (demo_session ''s2''), nodes := [],
          currentPath := [], activeNodeId := None\<rparr>)"
proof -
  let ?t = "\<lparr>session_id_t = ''s2'', nodes_t = []\<rparr>"
  have tree: "api_getSessionTree demo_api (id_s (demo_session ''s2'')) = Some ?t"
    by (simp add: demo_api_def demo_session_def)
  have empty: "nodes_t ?t = []" by simp
  show ?thesis
    using selectSession_empty_tree [OF tree empty, of demo_date demo_state] by simp
qed

text \<open>
  Claim C9. For every siblings response with \<open>0 \<le> current_index < total\<close> and
  \<open>total\<close> the length of the siblings list, the two handlers never read outside the
  array (neither ends in the \<open>TypeError\<close> of an \<^verbatim>\<open>undefined\<close> sibling): the previous
  handler navigates, to the sibling before, only when \<open>current_index > 0\<close>, the next
  handler, to the sibling after, only when \<open>current_index < total - 1\<close>; and in the
  rendered navigation a button is disabled exactly where its handler does nothing.
\<close>

theorem sibling_handlers_in_bounds:
  assumes lo: "0 \<le> current_index r"
    and hi: "current_index r < total r"
    and len: "total r = int (length (siblings r))"
  shows "handlePrevSibling (Some r) =
           (if current_index r > 0
            then Navigate (id_n (siblings r ! nat (current_index r - 1)))
            else NoNavigation)
       \<and> nat (current_index r - 1) < length (siblings r)
       \<and> handleNextSibling (Some r) =
           (if current_index r < total r - 1
            then Navigate (id_n (siblings r ! nat (current_index r + 1)))
            else NoNavigation)
       \<and> (current_index r < total r - 1 \<longrightarrow> nat (current_index r + 1) < length (siblings r))
       \<and> (\<forall>nav. header_nav (MessageBubble nd streaming streamed (Some r)) = Some nav \<longrightarrow>
             prev_disabled nav = (handlePrevSibling (Some r) = NoNavigation)
             \<and> next_disabled nav = (handleNextSibling (Some r) = NoNavigation))"
proof (intro conjI allI impI)
  show prev: "handlePrevSibling (Some r) =
           (if current_index r > 0
            then Navigate (id_n (siblings r ! nat (current_index r - 1)))
            else NoNavigation)"
    using lo hi len by (simp add: handlePrevSibling_def js_index_def)
  show "nat (current_index r - 1) < length (siblings r)"
    using lo hi len by linarith
  show nxt: "handleNextSibling (Some r) =
           (if current_index r < total r - 1
            then Navigate (id_n (siblings r ! nat (current_index r + 1)))
            else NoNavigation)"
    using lo hi len by (simp add: handleNextSibling_def js_index_def)
  show "nat (current_index r + 1) < length (siblings r)" if "current_index r < total r - 1"
    using that lo len by linarith
  fix nav
  assume nav: "header_nav (MessageBubble nd streaming streamed (Some r)) = Some nav"
  then have p: "prev_disabled nav = (current_index r = 0)"
    and n: "next_disabled nav = (current_index r = total r - 1)"
    by (auto simp: MessageBubble_def Let_def split: if_splits)
  show "prev_disabled nav = (handlePrevSibling (Some r) = NoNavigation)"
    using p prev lo by auto
  show "next_disabled nav = (handleNextSibling (Some r) = NoNavigation)"
    using n nxt hi by auto
qed

theorem sibling_handlers_in_bounds_witness:
  "handlePrevSibling (Some demo_siblings) = NoNavigation
   \<and> handleNextSibling (Some demo_siblings) = Navigate ''a2''
   \<and> handlePrevSibling (Some (demo_siblings\<lparr>current_index := 1\<rparr>)) = Navigate ''a1''
   \<and> handleNextSibling (Some (demo_siblings\<lparr>current_index := 1\<rparr>)) = NoNavigation"
proof -
  let ?r0 = demo_siblings and ?r1 = "demo_siblings\<lparr>current_index := 1\<rparr>"
  have h0: "0 \<le> current_index ?r0" "current_index ?r0 < total ?r0"
    "total ?r0 = int (length (siblings ?r0))"
    by (simp_all add: demo_siblings_def)
  have h1: "0 \<le> current_index ?r1" "current_index ?r1 < total ?r1"
    "total ?r1 = int (length (siblings ?r1))"
    by (simp_all add: demo_siblings_def)
  show ?thesis
    using sibling_handlers_in_bounds [OF h0] sibling_handlers_in_bounds [OF h1]
    by (simp add: demo_siblings_def demo_node_def)
qed

declare walk.simps [simp del]

lemma getNode_Some: "getNode ns i = Some n \<Longrightarrow> n \<in> set ns \<and> id_n n = i"
  by (auto simp: getNode_def find_Some_iff)

lemma getNode_None: "getNode ns i = None \<longleftrightarrow> i \<notin> id_n ` set ns"
  by (auto simp: getNode_def find_None_iff)

lemma linked_snoc:
  "linked (q @ [a]) \<Longrightarrow> parent_id b = Some (id_n a) \<Longrightarrow> linked (q @ [a, b])"
  by (induction q rule: linked.induct) auto

text \<open>The walk, when it answers a path: the path it adds in front of the accumulator.\<close>

lemma walk_Inr:
  "walk ns visited cur acc = Inr p \<Longrightarrow>
   \<exists>q n. p = q @ acc \<and> getNode ns cur = Some n \<and> q \<noteq> [] \<and> last q = n
     \<and> parent_id (hd q) = None \<and> linked q \<and> distinct (map id_n q)
     \<and> set (map id_n q) \<inter> set visited = {} \<and> set q \<subseteq> set ns"
proof (induction ns visited cur acc arbitrary: p rule: walk.induct)
  case (1 ns visited cur acc)
  from "1.prems" obtain n where found: "getNode ns cur = Some n"
    by (subst (asm) walk.simps) (auto split: option.splits)
  from "1.prems" found have fresh: "cur \<notin> set visited"
    by (subst (asm) walk.simps) (auto split: if_splits)
  have n: "n \<in> set ns" "id_n n = cur" using getNode_Some [OF found] by simp_all
  show ?case
  proof (cases "parent_id n")
    case None
    with "1.prems" found fresh have "p = [n] @ acc"
      by (subst (asm) walk.simps) simp
    then show ?thesis using found None n fresh by (intro exI [of _ "[n]"] exI [of _ n]) simp
  next
    case (Some par)
    with "1.prems" found fresh have rec: "walk ns (cur # visited) par (n # acc) = Inr p"
      by (subst (asm) walk.simps) simp
    from "1.IH" [OF found fresh Some rec]
    obtain q m where q: "p = q @ n # acc" "getNode ns par = Some m" "q \<noteq> []" "last q = m"
      "parent_id (hd q) = None" "linked q" "distinct (map id_n q)"
      "set (map id_n q) \<inter> set (cur # visited) = {}" "set q \<subseteq> set ns"
      by blast
    have m: "id_n m = par" using getNode_Some [OF q(2)] by simp
    obtain q' where q': "q = q' @ [m]" using q(3,4) by (metis append_butlast_last_id)
    have lk: "linked (q @ [n])"
      using linked_snoc [of q' m n] q(6) q' Some m by simp
    have "p = (q @ [n]) @ acc" using q(1) by simp
    moreover have "distinct (map id_n (q @ [n]))" using q(7,8) n by auto
    moreover have "set (map id_n (q @ [n])) \<inter> set visited = {}" using q(8) n fresh by auto
    moreover have "hd (q @ [n]) = hd q" using q(3) by simp
    ultimately show ?thesis 
      using found lk q(5,9) n q(3) by (intro exI [of _ "q @ [n]"] exI [of _ n]) auto
  qed
qed

lemma walk_Inl: "walk ns visited cur acc = Inl e \<Longrightarrow> e = CorruptTree"
proof (induction ns visited cur acc rule: walk.induct)
  case (1 ns visited cur acc)
  show ?case
  proof (cases "getNode ns cur")
    case None
    with "1.prems" show ?thesis by (subst (asm) walk.simps) simp
  next
    case (Some n)
    show ?thesis
    proof (cases "cur \<in> set visited")
      case True
      with "1.prems" Some show ?thesis by (subst (asm) walk.simps) simp
    next
      case False
      show ?thesis
      proof (cases "parent_id n")
        case None
        with "1.prems" Some False show ?thesis by (subst (asm) walk.simps) simp
      next
        case (Some par)
        with "1.prems" \<open>getNode ns cur = Some n\<close> False
        have "walk ns (cur # visited) par (n # acc) = Inl e"
          by (subst (asm) walk.simps) simp
        from "1.IH" [OF \<open>getNode ns cur = Some n\<close> False Some this] show ?thesis .
      qed
    qed
  qed
qed

lemma getNode_Cons: "id_n m \<noteq> i \<Longrightarrow> getNode (m # ns) i = getNode ns i"
  by (simp add: getNode_def)

text \<open>The walk from an older node never looks at a newer one.\<close>

lemma walk_Cons:
  "store_ok ns \<Longrightarrow> id_n m \<notin> id_n ` set ns \<Longrightarrow> cur \<in> id_n ` set ns \<Longrightarrow>
   walk (m # ns) visited cur acc = walk ns visited cur acc"
proof (induction ns visited cur acc rule: walk.induct)
  case (1 ns visited cur acc)
  from "1.prems" have ne: "id_n m \<noteq> cur" by auto
  obtain n where found: "getNode ns cur = Some n"
    using "1.prems"(3) getNode_None [of ns cur] by (cases "getNode ns cur") auto
  have look: "getNode (m # ns) cur = Some n" using getNode_Cons [OF ne] found by simp
  show ?case
  proof (cases "cur \<in> set visited")
    case True
    then show ?thesis using found look by (simp add: walk.simps [of _ visited cur])
  next
    case False
    show ?thesis
    proof (cases "parent_id n")
      case None
      then show ?thesis using found look False by (simp add: walk.simps [of _ visited cur])
    next
      case (Some par)
      have "par \<in> id_n ` set ns"
        using store_ok_parent [OF "1.prems"(1) _ Some] getNode_Some [OF found] by simp
      from "1.IH" [OF found False Some "1.prems"(1,2) this]
      show ?thesis using found look False Some by (simp add: walk.simps [of _ visited cur])
    qed
  qed
qed

lemma walk_succeeds:
  "store_ok ns \<Longrightarrow> cur \<in> id_n ` set ns \<Longrightarrow> set visited \<inter> id_n ` set ns = {} \<Longrightarrow>
   \<exists>p. walk ns visited cur acc = Inr p"
proof (induction ns arbitrary: visited cur acc)
  case Nil
  then show ?case by simp
next
  case (Cons m ns)
  have ok: "store_ok ns" and fresh: "id_n m \<notin> id_n ` set ns"
    using Cons.prems(1) by simp_all
  show ?case
  proof (cases "cur = id_n m")
    case True
    have look: "getNode (m # ns) cur = Some m" using True by (simp add: getNode_def)
    have nv: "cur \<notin> set visited" using Cons.prems(3) True by auto
    show ?thesis
    proof (cases "parent_id m")
      case None
      then show ?thesis using look nv by (simp add: walk.simps [of _ visited cur])
    next
      case (Some par)
      have par: "par \<in> id_n ` set ns"
        using Cons.prems(1) Some by (auto simp: list_ex_iff)
      have disj: "set (cur # visited) \<inter> id_n ` set ns = {}"
        using Cons.prems(3) True fresh by auto
      from Cons.IH [OF ok par disj]
      obtain p where "walk ns (cur # visited) par (m # acc) = Inr p" by blast
      then have "walk (m # ns) (cur # visited) par (m # acc) = Inr p"
        using walk_Cons [OF ok fresh par] by simp
      then show ?thesis using look nv Some by (simp add: walk.simps [of _ visited cur])
    qed
  next
    case False
    then have cur: "cur \<in> id_n ` set ns" using Cons.prems(2) by auto
    have disj: "set visited \<inter> id_n ` set ns = {}" using Cons.prems(3) by auto
    from Cons.IH [OF ok cur disj]
    show ?thesis using walk_Cons [OF ok fresh cur] by simp
  qed
qed

text \<open>
  Claim C2. For every existing node \<open>n\<close>, \<^verbatim>\<open>pathTo(n)\<close> always answers (the walk is a
  total function): either the sequence of nodes from a root (a node with no parent)
  first to \<open>n\<close> last, each the parent of the next, with no node id repeated, or
  \<open>CorruptTree\<close>, which is what a cycle met during the walk is reported as. On a store
  that keeps the invariants (every node inserted after its parent) the answer is the
  path.
\<close>

theorem pathTo_root_first:
  assumes found: "getNode ns i = Some n"
  shows "(case pathTo ns i of Inl e \<Rightarrow> e = CorruptTree | Inr p \<Rightarrow> is_path ns n p)
       \<and> (store_ok ns \<longrightarrow> (\<exists>p. pathTo ns i = Inr p \<and> is_path ns n p))"
proof -
  have run: "pathTo ns i = walk ns [] i []" using found by (simp add: pathTo_def)
  have good: "is_path ns n p" if "pathTo ns i = Inr p" for p
  proof -
    from that run have "walk ns [] i [] = Inr p" by simp
    from walk_Inr [OF this] found show ?thesis by (auto simp: is_path_def)
  qed
  have bad: "e = CorruptTree" if "pathTo ns i = Inl e" for e
    using that run walk_Inl by simp
  have first: "case pathTo ns i of Inl e \<Rightarrow> e = CorruptTree | Inr p \<Rightarrow> is_path ns n p"
    using good bad by (cases "pathTo ns i") auto
  have second: "\<exists>p. pathTo ns i = Inr p \<and> is_path ns n p" if ok: "store_ok ns"
  proof -
    have "i \<in> id_n ` set ns" using getNode_Some [OF found] by auto
    from walk_succeeds [OF ok this, of "[]" "[]"] run
    obtain p where "pathTo ns i = Inr p" by auto
    then show ?thesis using good by blast
  qed
  show ?thesis using first second by blast
qed

theorem pathTo_root_first_witness:
  "pathTo demo_cycle ''a'' = Inl CorruptTree
   \<and> (\<exists>p. pathTo (nodes_t demo_tree) ''a2'' = Inr p
          \<and> is_path (nodes_t demo_tree)
               (demo_node ''a2'' (Some ''u1'') Assistant ''2024-05-01T10:00:03'') p)"
proof -
  have cyc: "getNode demo_cycle ''a'' = Some (demo_node ''a'' (Some ''b'') Assistant ''2'')"
    by (simp add: demo_cycle_def getNode_def demo_node_def)
  have "pathTo demo_cycle ''a'' \<noteq> Inr p" for p
    by (simp add: demo_cycle_def pathTo_def getNode_def demo_node_def walk.simps)
  then have first: "pathTo demo_cycle ''a'' = Inl CorruptTree"
    using pathTo_root_first [OF cyc] by (cases "pathTo demo_cycle ''a''") auto
  have found: "getNode (nodes_t demo_tree) ''a2'' =
      Some (demo_node ''a2'' (Some ''u1'') Assistant ''2024-05-01T10:00:03'')"
    by (simp add: demo_tree_def getNode_def demo_node_def)
  have ok: "store_ok (nodes_t demo_tree)"
    by (simp add: demo_tree_def demo_node_def)
  show ?thesis
    using first pathTo_root_first [OF found] ok by blast
qed

lemma filter_single:
  "distinct xs \<Longrightarrow> x \<in> set xs \<Longrightarrow> (\<forall>y \<in> set xs. P y \<longleftrightarrow> y = x) \<Longrightarrow> filter P xs = [x]"
proof (induction xs)
  case Nil
  then show ?case by simp
next
  case (Cons a xs)
  show ?case
  proof (cases "a = x")
    case True
    then have "x \<notin> set xs" using Cons.prems(1) by simp
    then have "\<forall>y \<in> set xs. \<not> P y" using Cons.prems(3) by auto
    then have "filter P xs = []" by (simp add: filter_empty_conv)
    then show ?thesis using True Cons.prems(3) by simp
  next
    case False
    then have "\<not> P a" using Cons.prems(3) by simp
    moreover have "filter P xs = [x]"
      using Cons.IH Cons.prems False by auto
    ultimately show ?thesis by simp
  qed
qed

lemma index_of_less: "i \<in> id_n ` set xs \<Longrightarrow> index_of i xs < length xs"
  by (induction xs) (auto simp: index_of_def)

lemma index_of_nth: "i \<in> id_n ` set xs \<Longrightarrow> id_n (xs ! index_of i xs) = i"
  by (induction xs) (auto simp: index_of_def)

lemma distinct_ids_eq:
  "distinct (map id_n xs) \<Longrightarrow> a \<in> set xs \<Longrightarrow> b \<in> set xs \<Longrightarrow> id_n a = id_n b \<Longrightarrow> a = b"
  by (meson distinct_map inj_onD)

text \<open>
  Claim C5, as stated, fails on the caller: \<open>total > 1\<close> alone does not decide the
  branch navigation. For a user message with a sibling, as Diverge Mode creates them,
  \<^verbatim>\<open>siblingsOf\<close> answers a total of 2 and \<^verbatim>\<open>MessageBubble\<close> renders no navigation.
\<close>

theorem user_message_with_siblings_gets_no_navigation:
  "siblingsOf demo_time demo_diverged ''u2'' = Inr demo_user_siblings
   \<and> total demo_user_siblings > 1
   \<and> header_nav
        (MessageBubble (demo_node ''u2'' (Some ''a1'') User ''2024-05-01T10:00:04'') False []
           (Some demo_user_siblings)) = None"
proof (intro conjI)
  show "siblingsOf demo_time demo_diverged ''u2'' = Inr demo_user_siblings"
    by (simp add: siblingsOf_def getNode_def demo_diverged_def demo_user_siblings_def
        demo_node_def same_parent_def index_of_def demo_time_def demo_date_def Let_def)
  show "total demo_user_siblings > 1"
    by (simp add: demo_user_siblings_def)
  show "header_nav
        (MessageBubble (demo_node ''u2'' (Some ''a1'') User ''2024-05-01T10:00:04'') False []
           (Some demo_user_siblings)) = None"
    by (simp add: MessageBubble_def Let_def demo_node_def)
qed

text \<open>
  Claim C5, amended. For every existing node (of a store whose identities are unique),
  \<^verbatim>\<open>siblingsOf\<close> answers the nodes sharing its parent, ordered by \<^verbatim>\<open>created_at\<close>
  ascending, with the zero-based index at which the queried node stands and their number;
  a node with no siblings gives the one-element list, index 0 and total 1. The caller,
  \<^verbatim>\<open>MessageBubble\<close>, renders the branch navigation exactly when \<open>total > 1\<close> (its
  \<^verbatim>\<open>hasSiblings\<close>) and the message is not the user's; on a user message it never
  renders it.
\<close>

theorem siblingsOf_ordered_indexed:
  assumes found: "getNode ns i = Some n"
    and ids: "distinct (map id_n ns)"
  shows "\<exists>r. siblingsOf time ns i = Inr r
      \<and> sorted (map (\<lambda>m. time (created_at m)) (siblings r))
      \<and> set (siblings r) = {m \<in> set ns. same_parent n m}
      \<and> distinct (siblings r)
      \<and> total r = int (length (siblings r))
      \<and> 0 \<le> current_index r \<and> current_index r < total r
      \<and> js_index (siblings r) (current_index r) = Some n
      \<and> hasSiblings (Some r) = (total r > 1)
      \<and> (header_nav (MessageBubble nd streaming streamed (Some r)) \<noteq> None) =
          (role nd \<noteq> User \<and> hasSiblings (Some r))
      \<and> ((\<forall>m \<in> set ns. same_parent n m \<longrightarrow> m = n) \<longrightarrow>
            siblings r = [n] \<and> current_index r = 0 \<and> total r = 1 \<and> \<not> hasSiblings (Some r))"
proof -
  let ?key = "\<lambda>m. time (created_at m)"
  let ?fam = "filter (same_parent n) (rev ns)"
  let ?sibs = "sort_key ?key ?fam"
  let ?r = "\<lparr>siblings = ?sibs, current_index = int (index_of i ?sibs), total = int (length ?sibs)\<rparr>"
  have n: "n \<in> set ns" "id_n n = i" using found by (auto simp: getNode_def find_Some_iff)
  have run: "siblingsOf time ns i = Inr ?r" using found by (simp add: siblingsOf_def Let_def)
  have srt: "sorted (map ?key ?sibs)" by (rule sorted_sort_key)
  have st: "set ?sibs = {m \<in> set ns. same_parent n m}" by auto
  have dn: "distinct ns" using ids by (simp add: distinct_map)
  have ds: "distinct ?sibs" using dn by simp
  have self: "same_parent n n" by (simp add: same_parent_def)
  have mem: "n \<in> set ?sibs" using n self by simp
  then have imem: "i \<in> id_n ` set ?sibs" using n(2) by force
  have lt: "index_of i ?sibs < length ?sibs" using index_of_less [OF imem] .
  have "id_n (?sibs ! index_of i ?sibs) = id_n n" using index_of_nth [OF imem] n(2) by simp
  moreover have "?sibs ! index_of i ?sibs \<in> set ns"
    using lt st nth_mem [OF lt] by blast
  ultimately have at: "?sibs ! index_of i ?sibs = n"
    using distinct_ids_eq [OF ids _ n(1)] by blast
  have idx: "js_index ?sibs (int (index_of i ?sibs)) = Some n"
    using lt at by (simp add: js_index_def)
  have alone: "?sibs = [n] \<and> index_of i ?sibs = 0" if only: "\<forall>m \<in> set ns. same_parent n m \<longrightarrow> m = n"
  proof -
    have "\<forall>y \<in> set (rev ns). same_parent n y \<longleftrightarrow> y = n" using only self by auto
    from filter_single [OF _ _ this] dn n(1) have "?fam = [n]" by simp
    then show ?thesis using n(2) by (simp add: index_of_def)
  qed
  show ?thesis
  proof (intro exI [of _ ?r] conjI impI)
    show "siblingsOf time ns i = Inr ?r" by (rule run)
    show "sorted (map ?key (siblings ?r))" using srt by simp
    show "set (siblings ?r) = {m \<in> set ns. same_parent n m}" using st by simp
    show "distinct (siblings ?r)" using ds by simp
    show "total ?r = int (length (siblings ?r))" by simp
    show "0 \<le> current_index ?r" by simp
    show "current_index ?r < total ?r" using lt by simp
    show "js_index (siblings ?r) (current_index ?r) = Some n" using idx by simp
    show "hasSiblings (Some ?r) = (total ?r > 1)" by (simp add: hasSiblings_def)
    show "(header_nav (MessageBubble nd streaming streamed (Some ?r)) \<noteq> None) =
          (role nd \<noteq> User \<and> hasSiblings (Some ?r))"
      by (simp add: MessageBubble_def Let_def)
  next
    assume only: "\<forall>m \<in> set ns. same_parent n m \<longrightarrow> m = n"
    from alone [OF only] have one: "?sibs = [n]" and zero: "index_of i ?sibs = 0"
      by blast+
    have len: "length ?sibs = 1" using one by simp
    show "siblings ?r = [n]" using one by simp
    show "current_index ?r = 0" using zero by simp
    show "total ?r = 1" using len by simp
    show "\<not> hasSiblings (Some ?r)" using len by (simp add: hasSiblings_def)
  qed
qed

theorem siblingsOf_ordered_indexed_witness:
  "(\<exists>r. siblingsOf demo_time (nodes_t demo_tree) ''a2'' = Inr r
      \<and> sorted (map (\<lambda>m. demo_time (created_at m)) (siblings r))
      \<and> total r = int (length (siblings r))
      \<and> current_index r < total r
      \<and> js_index (siblings r) (current_index r) =
          Some (demo_node ''a2'' (Some ''u1'') Assistant ''2024-05-01T10:00:03'')
      \<and> hasSiblings (Some r) = (total r > 1)
      \<and> (header_nav
            (MessageBubble (demo_node ''a2'' (Some ''u1'') Assistant ''2024-05-01T10:00:03'')
               False [] (Some r)) \<noteq> None) = (total r > 1)
      \<and> header_nav
            (MessageBubble (demo_node ''u1'' None User ''2024-05-01T10:00:01'') False []
               (Some r)) = None)
   \<and> (\<exists>r. siblingsOf demo_time (nodes_t demo_tree) ''u1'' = Inr r
      \<and> siblings r = [demo_node ''u1'' None User ''2024-05-01T10:00:01'']
      \<and> current_index r = 0 \<and> total r = 1 \<and> \<not> hasSiblings (Some r))"
proof -
  let ?u1 = "demo_node ''u1'' None User ''2024-05-01T10:00:01''"
  have found: "getNode (nodes_t demo_tree) ''a2'' =
      Some (demo_node ''a2'' (Some ''u1'') Assistant ''2024-05-01T10:00:03'')"
    by (simp add: demo_tree_def getNode_def demo_node_def)
  have root: "getNode (nodes_t demo_tree) ''u1'' = Some ?u1"
    by (simp add: demo_tree_def getNode_def demo_node_def)
  have ids: "distinct (map id_n (nodes_t demo_tree))"
    by (simp add: demo_tree_def demo_node_def)
  have only: "\<forall>m \<in> set (nodes_t demo_tree). same_parent ?u1 m \<longrightarrow> m = ?u1"
    by (simp add: demo_tree_def demo_node_def same_parent_def)
  have first: "\<exists>r. siblingsOf demo_time (nodes_t demo_tree) ''a2'' = Inr r
      \<and> sorted (map (\<lambda>m. demo_time (created_at m)) (siblings r))
      \<and> total r = int (length (siblings r))
      \<and> current_index r < total r
      \<and> js_index (siblings r) (current_index r) =
          Some (demo_node ''a2'' (Some ''u1'') Assistant ''2024-05-01T10:00:03'')
      \<and> hasSiblings (Some r) = (total r > 1)
      \<and> (header_nav
            (MessageBubble (demo_node ''a2'' (Some ''u1'') Assistant ''2024-05-01T10:00:03'')
               False [] (Some r)) \<noteq> None) = (total r > 1)
      \<and> header_nav
            (MessageBubble (demo_node ''u1'' None User ''2024-05-01T10:00:01'') False []
               (Some r)) = None"
  proof -
    let ?a2 = "demo_node ''a2'' (Some ''u1'') Assistant ''2024-05-01T10:00:03''"
    from siblingsOf_ordered_indexed
      [OF found ids, where time = demo_time and nd = ?a2 and streaming = False and streamed = "[]"]
    obtain r where r: "siblingsOf demo_time (nodes_t demo_tree) ''a2'' = Inr r"
      "sorted (map (\<lambda>m. demo_time (created_at m)) (siblings r))"
      "total r = int (length (siblings r))" "current_index r < total r"
      "js_index (siblings r) (current_index r) = Some ?a2"
      "hasSiblings (Some r) = (total r > 1)"
      "(header_nav (MessageBubble ?a2 False [] (Some r)) \<noteq> None) =
         (role ?a2 \<noteq> User \<and> hasSiblings (Some r))"
      by blast
    from siblingsOf_ordered_indexed
      [OF found ids, where time = demo_time and nd = ?u1 and streaming = False and streamed = "[]"] r(1)
    have u: "(header_nav (MessageBubble ?u1 False [] (Some r)) \<noteq> None) =
         (role ?u1 \<noteq> User \<and> hasSiblings (Some r))"
      by auto
    have "(header_nav (MessageBubble ?a2 False [] (Some r)) \<noteq> None) = (total r > 1)"
      using r(6,7) by (simp add: demo_node_def)
    moreover have "header_nav (MessageBubble ?u1 False [] (Some r)) = None"
      using u by (simp add: demo_node_def)
    ultimately show ?thesis using r(1-6) by blast
  qed
  have second: "\<exists>r. siblingsOf demo_time (nodes_t demo_tree) ''u1'' = Inr r
      \<and> siblings r = [?u1]
      \<and> current_index r = 0 \<and> total r = 1 \<and> \<not> hasSiblings (Some r)"
    using siblingsOf_ordered_indexed [OF root ids, of demo_time] only by blast
  show ?thesis using first second by (rule conjI)
qed

text \<open>
  Claim C6, as stated, fails on the client: the Regenerate button is rendered on every
  message that is not the user's, a system message included.
\<close>

theorem regenerate_offered_on_system_message:
  "regenerate_button
     (MessageBubble (demo_node ''p0'' None System ''2024-05-01T10:00:00'') False [] None)
   \<and> role (demo_node ''p0'' None System ''2024-05-01T10:00:00'') \<noteq> Assistant"
  by (simp add: MessageBubble_def Let_def demo_node_def)

lemma createNode_failure_keeps_store: "fst (createNode n st) = Inl e \<Longrightarrow> snd (createNode n st) = st"
  by (auto simp: createNode_def split: if_splits)

text \<open>
  Claim C6, amended. Regeneration (\<^verbatim>\<open>branch\<close>) applies only to assistant nodes: on a
  user node (on any node that is not an assistant's) it fails with \<open>InvalidRole\<close> and
  leaves the store as it was, as every failure of it does; when it succeeds the node was
  an assistant's and the new node is an assistant node under the same parent. The client
  offers the regenerate action exactly on the messages whose role is not \<^verbatim>\<open>user\<close>
  (assistant and system messages alike) that are not currently streaming.
\<close>

theorem regenerate_only_for_non_user:
  "(\<forall>n. getNode (store_nodes st) i = Some n \<and> role n \<noteq> Assistant \<longrightarrow>
        branch i mdl new_id now st = (Inl InvalidRole, st))
   \<and> (\<forall>e. fst (branch i mdl new_id now st) = Inl e \<longrightarrow> snd (branch i mdl new_id now st) = st)
   \<and> (\<forall>r st'. branch i mdl new_id now st = (Inr r, st') \<longrightarrow>
        (\<exists>n. getNode (store_nodes st) i = Some n \<and> role n = Assistant
            \<and> role r = Assistant \<and> parent_id r = parent_id n
            \<and> store_nodes st' = r # store_nodes st))
   \<and> regenerate_button (MessageBubble nd streaming streamed sibs) =
       (role nd \<noteq> User \<and> \<not> streaming)"
proof (intro conjI allI impI)
  fix n assume "getNode (store_nodes st) i = Some n \<and> role n \<noteq> Assistant"
  then show "branch i mdl new_id now st = (Inl InvalidRole, st)"
    by (simp add: branch_def)
next
  fix e assume fails: "fst (branch i mdl new_id now st) = Inl e"
  show "snd (branch i mdl new_id now st) = st"
  proof (cases "getNode (store_nodes st) i")
    case None
    then show ?thesis by (simp add: branch_def)
  next
    case (Some n)
    show ?thesis
    proof (cases "role n = Assistant")
      case True
      with Some fails show ?thesis
        by (simp add: branch_def createNode_failure_keeps_store)
    next
      case False
      with Some show ?thesis by (simp add: branch_def)
    qed
  qed
next
  fix r st' assume made: "branch i mdl new_id now st = (Inr r, st')"
  then obtain n where n: "getNode (store_nodes st) i = Some n"
    by (cases "getNode (store_nodes st) i") (auto simp: branch_def)
  with made have asst: "role n = Assistant"
    by (auto simp: branch_def split: if_splits)
  from made n asst
  have "role r = Assistant \<and> parent_id r = parent_id n \<and> store_nodes st' = r # store_nodes st"
    by (auto simp: branch_def createNode_def split: if_splits)
  with n asst
  show "\<exists>n. getNode (store_nodes st) i = Some n \<and> role n = Assistant
            \<and> role r = Assistant \<and> parent_id r = parent_id n
            \<and> store_nodes st' = r # store_nodes st"
    by blast
next
  show "regenerate_button (MessageBubble nd streaming streamed sibs) =
       (role nd \<noteq> User \<and> \<not> streaming)"
    by (simp add: MessageBubble_def Let_def)
qed

theorem regenerate_only_for_non_user_witness:
  "branch ''u1'' ''gemma3:4b'' ''a3'' ''2024-05-01T10:00:04'' demo_store =
     (Inl InvalidRole, demo_store)
   \<and> (\<exists>r st'. branch ''a1'' ''gemma3:4b'' ''a3'' ''2024-05-01T10:00:04'' demo_store = (Inr r, st')
        \<and> role r = Assistant \<and> parent_id r = Some ''u1''
        \<and> store_nodes st' = r # store_nodes demo_store)
   \<and> regenerate_button
       (MessageBubble (demo_node ''a1'' (Some ''u1'') Assistant ''2024-05-01T10:00:02'')
          False [] None)
   \<and> \<not> regenerate_button
       (MessageBubble (demo_node ''u1'' None User ''2024-05-01T10:00:01'') False [] None)"
proof -
  have user: "getNode (store_nodes demo_store) ''u1'' =
        Some (demo_node ''u1'' None User ''2024-05-01T10:00:01'')
      \<and> role (demo_node ''u1'' None User ''2024-05-01T10:00:01'') \<noteq> Assistant"
    by (simp add: demo_store_def demo_tree_def getNode_def demo_node_def)
  obtain r st' where made:
      "branch ''a1'' ''gemma3:4b'' ''a3'' ''2024-05-01T10:00:04'' demo_store = (Inr r, st')"
    by (simp add: branch_def createNode_def demo_store_def demo_tree_def getNode_def
        demo_node_def)
  have a1: "getNode (store_nodes demo_store) ''a1'' =
      Some (demo_node ''a1'' (Some ''u1'') Assistant ''2024-05-01T10:00:02'')"
    by (simp add: demo_store_def demo_tree_def getNode_def demo_node_def)
  have regen: "role r = Assistant \<and> parent_id r = Some ''u1''
      \<and> store_nodes st' = r # store_nodes demo_store"
    using made a1
      regenerate_only_for_non_user [of demo_store "''a1''" "''gemma3:4b''" "''a3''"
        "''2024-05-01T10:00:04''"
        "demo_node ''a1'' (Some ''u1'') Assistant ''2024-05-01T10:00:02''" False "[]" None]
    by (auto simp: demo_node_def)
  show ?thesis
    using user made regen
      regenerate_only_for_non_user [of demo_store "''u1''" "''gemma3:4b''" "''a3''"
        "''2024-05-01T10:00:04''"
        "demo_node ''a1'' (Some ''u1'') Assistant ''2024-05-01T10:00:02''" False "[]" None]
      regenerate_only_for_non_user [of demo_store "''u1''" "''gemma3:4b''" "''a3''"
        "''2024-05-01T10:00:04''" "demo_node ''u1'' None User ''2024-05-01T10:00:01''" False "[]" None]
    by (simp add: demo_node_def)
qed

lemma split_nl_nonempty: "split_nl s \<noteq> []"
  by (induction s) (auto split: list.splits)

lemma split_nl_line:
  "no_newline l \<Longrightarrow> split_nl (l @ newline # rest) = l # split_nl rest"
  by (induction l) (auto simp: no_newline_def)

lemma split_nl_fragment: "no_newline f \<Longrightarrow> split_nl f = [f]"
  by (induction f) (auto simp: no_newline_def)

lemma split_nl_join:
  "list_all no_newline ls \<Longrightarrow> no_newline frag \<Longrightarrow> split_nl (join_lines ls frag) = ls @ [frag]"
proof (induction ls)
  case Nil
  then show ?case by (simp add: join_lines_def split_nl_fragment)
next
  case (Cons l ls)
  have "join_lines (l # ls) frag = l @ newline # join_lines ls frag"
    by (simp add: join_lines_def)
  then show ?case using Cons by (simp add: split_nl_line)
qed

lemma split_nl_pieces: "list_all no_newline (split_nl s)"
  by (induction s) (auto simp: no_newline_def split: list.splits)

lemma join_split_nl: "join_lines (butlast (split_nl s)) (last (split_nl s)) = s"
proof (induction s)
  case Nil
  then show ?case by (simp add: join_lines_def)
next
  case (Cons c s)
  show ?case
  proof (cases "c = newline")
    case True
    then show ?thesis using Cons split_nl_nonempty [of s] by (simp add: join_lines_def)
  next
    case False
    obtain l ls where sp: "split_nl s = l # ls"
      using split_nl_nonempty [of s] by (cases "split_nl s") auto
    show ?thesis
    proof (cases ls)
      case Nil
      then show ?thesis using Cons sp False by (simp add: join_lines_def)
    next
      case (Cons a as)
      then show ?thesis using Cons.IH sp False by (simp add: join_lines_def)
    qed
  qed
qed


lemma yield_lines_append:
  "yield_lines parse (xs @ ys) = yield_lines parse xs @ yield_lines parse ys"
  by (simp add: yield_lines_def List.map_filter_def)

lemma read_chunks_step:
  "read_chunks parse buffer (v # rest) =
   yield_lines parse (butlast (split_nl (buffer @ v)))
   @ read_chunks parse (last (split_nl (buffer @ v))) rest"
  using split_nl_nonempty [of "buffer @ v"] by (simp add: pop_def Let_def)

lemma join_lines_append:
  "join_lines xs f @ t = join_lines xs (f @ t)"
  "join_lines xs (join_lines ys f) = join_lines (xs @ ys) f"
  by (simp_all add: join_lines_def)

text \<open>The loop yields the complete lines of the buffer followed by the chunks.\<close>

lemma read_chunks_lines:
  assumes "no_newline buffer"
    and "buffer @ concat cs = join_lines ls frag"
    and "list_all no_newline ls" and "no_newline frag"
  shows "read_chunks parse buffer cs = yield_lines parse ls"
  using assms
proof (induction cs arbitrary: buffer ls frag)
  case Nil
  then have "split_nl buffer = ls @ [frag]"
    using split_nl_join [of ls frag] by simp
  moreover have "split_nl buffer = [buffer]"
    using Nil.prems(1) by (rule split_nl_fragment)
  ultimately have "ls = []" by simp
  then show ?case by (simp add: yield_lines_def)
next
  case (Cons v rest)
  let ?t1 = "buffer @ v"
  let ?ls1 = "butlast (split_nl ?t1)" and ?f1 = "last (split_nl ?t1)"
  let ?t2 = "?f1 @ concat rest"
  let ?ls2 = "butlast (split_nl ?t2)" and ?f2 = "last (split_nl ?t2)"
  have p1: "list_all no_newline ?ls1" "no_newline ?f1"
    using split_nl_pieces [of ?t1] split_nl_nonempty [of ?t1]
    by (auto simp: list_all_iff dest: in_set_butlastD)
  have p2: "list_all no_newline ?ls2" "no_newline ?f2"
    using split_nl_pieces [of ?t2] split_nl_nonempty [of ?t2]
    by (auto simp: list_all_iff dest: in_set_butlastD)
  have j1: "join_lines ?ls1 ?f1 = ?t1" by (rule join_split_nl)
  have j2: "join_lines ?ls2 ?f2 = ?t2" by (rule join_split_nl)
  have rec: "read_chunks parse ?f1 rest = yield_lines parse ?ls2"
    by (rule Cons.IH [OF p1(2) j2 [symmetric] p2])
  have "join_lines ls frag = ?t1 @ concat rest"
    using Cons.prems(2) by simp
  also have "\<dots> = join_lines ?ls1 ?t2"
    using j1 join_lines_append(1) [of ?ls1 ?f1 "concat rest"] by simp
  also have "\<dots> = join_lines (?ls1 @ ?ls2) ?f2"
    using j2 join_lines_append(2) [of ?ls1 ?ls2 ?f2] by simp
  finally have "split_nl (join_lines ls frag) = split_nl (join_lines (?ls1 @ ?ls2) ?f2)"
    by simp
  then have "ls @ [frag] = (?ls1 @ ?ls2) @ [?f2]"
    using split_nl_join [OF Cons.prems(3,4)] split_nl_join [of "?ls1 @ ?ls2" ?f2] p1(1) p2
    by simp
  then have "ls = ?ls1 @ ?ls2" by simp
  then show ?case
    using rec by (simp only: read_chunks_step yield_lines_append)
qed

lemma yield_lines_json:
  assumes "\<forall>l. trim l = [] \<longrightarrow> parse l = None"
  shows "yield_lines parse ls = List.map_filter parse ls"
proof -
  have "(\<lambda>line. if trim line \<noteq> [] then parse line else None) = parse"
    using assms by auto
  then show ?thesis by (simp add: yield_lines_def)
qed

text \<open>Every text is, in exactly one way, complete lines followed by a fragment.\<close>

lemma received_text_decomposes:
  "\<exists>ls frag. s = join_lines ls frag \<and> list_all no_newline ls \<and> no_newline frag"
proof (intro exI conjI)
  show "s = join_lines (butlast (split_nl s)) (last (split_nl s))"
    by (simp add: join_split_nl)
  show "list_all no_newline (butlast (split_nl s))"
    using split_nl_pieces [of s] by (auto simp: list_all_iff dest: in_set_butlastD)
  show "no_newline (last (split_nl s))"
    using split_nl_pieces [of s] split_nl_nonempty [of s] by (auto simp: list_all_iff)
qed

text \<open>
  Claim C8. For every stream received, however it is cut into chunks and however it
  ends, each of the three stream parsers yields exactly the JSON values of the complete,
  newline-terminated lines whose text parses as JSON, in arrival order: a line that does
  not parse is dropped and the lines after it are still read, and the fragment after the
  last newline is never yielded. (\<open>JSON_parse\<close> is \<^verbatim>\<open>JSON.parse\<close>, of which the proof
  uses only that blank text is not JSON.)
\<close>

theorem stream_yields_complete_json_lines:
  assumes received: "concat cs = join_lines ls frag"
    and lines: "list_all no_newline ls"
    and fragment: "no_newline frag"
    and blank: "\<forall>l. trim l = [] \<longrightarrow> JSON_parse l = None"
  shows "(fetch (ChatCompletions sessionId parentId msg mdl) = Body cs broken \<longrightarrow>
            streamChat JSON_parse fetch sessionId msg parentId mdl =
              (List.map_filter JSON_parse ls, if broken then Threw else Returned))
       \<and> (fetch (BranchNode nodeId mdl) = Body cs broken \<longrightarrow>
            streamBranch JSON_parse fetch nodeId mdl =
              (List.map_filter JSON_parse ls, if broken then Threw else Returned))
       \<and> (fetch (ContinueNode parent msg sessionId mdl) = Body cs broken \<longrightarrow>
            streamContinue JSON_parse fetch parent msg sessionId mdl =
              (List.map_filter JSON_parse ls, if broken then Threw else Returned))"
proof -
  have "read_chunks JSON_parse [] cs = yield_lines JSON_parse ls"
    using read_chunks_lines [of "[]" cs ls frag JSON_parse] received lines fragment
    by (simp add: no_newline_def)
  then have "read_response JSON_parse (Body cs broken) =
      (List.map_filter JSON_parse ls, if broken then Threw else Returned)"
    using blank by (simp add: read_response_def yield_lines_json)
  then show ?thesis
    by (simp add: streamChat_def streamBranch_def streamContinue_def)
qed

theorem stream_yields_complete_json_lines_witness:
  "streamChat demo_json demo_fetch ''s1'' ''hi'' None ''gemma3:4b'' = ([17, 42], Returned)
   \<and> streamBranch demo_json demo_fetch ''a1'' ''gemma3:4b'' = ([17, 42], Returned)
   \<and> streamContinue demo_json demo_fetch ''a1'' ''hi'' ''s1'' ''gemma3:4b'' = ([17, 42], Returned)"
proof -
  let ?cs = "[''17\<newline>{oo'', ''ps\<newline>  \<newline>4'', ''2\<newline>9'']"
  let ?ls = "[''17'', ''{oops'', ''  '', ''42'']"
  have received: "concat ?cs = join_lines ?ls ''9''"
    by (simp add: join_lines_def newline_def)
  have lines: "list_all no_newline ?ls"
    by (simp add: no_newline_def newline_def)
  have fragment: "no_newline ''9''"
    by (simp add: no_newline_def newline_def)
  have blank: "\<forall>l. trim l = [] \<longrightarrow> demo_json l = None"
    by (auto simp: demo_json_def trim_def isWhiteSpace_def)
  have body: "demo_fetch q = Body ?cs False" for q
    by (simp add: demo_fetch_def)
  have vals: "List.map_filter demo_json ?ls = [17, 42]"
    by (simp add: demo_json_def)
  show ?thesis
    using stream_yields_complete_json_lines [OF received lines fragment blank,
        of demo_fetch "''s1''" None "''hi''" "''gemma3:4b''" False "''a1''" "''a1''"] body vals
    by simp
qed

lemma foldl_consume_chunk:
  "foldl consume_chunk (i, fc, st) chunks = (i', fc', st') \<Longrightarrow>
   fc' = fc @ concat (map token (filter (\<lambda>c. \<not> done_c c) chunks))
   \<and> (streamingContent st = fc \<longrightarrow> streamingContent st' = fc')"
proof (induction chunks arbitrary: i fc st)
  case Nil
  then show ?case by simp
next
  case (Cons c cs)
  obtain i1 fc1 st1 where one: "consume_chunk (i, fc, st) c = (i1, fc1, st1)"
    by (cases "consume_chunk (i, fc, st) c") auto
  then have fc1: "fc1 = fc @ concat (map token (filter (\<lambda>c. \<not> done_c c) [c]))"
    and shown: "streamingContent st = fc \<longrightarrow> streamingContent st1 = fc1"
    by (auto simp: consume_chunk_def Let_def split: if_splits)
  from Cons.prems one have "foldl consume_chunk (i1, fc1, st1) cs = (i', fc', st')"
    by simp
  from Cons.IH [OF this] fc1 shown show ?case by auto
qed

lemma complete_tokens:
  "filter (\<lambda>c. \<not> done_c c) (complete nid tokens failed) = map (token_event nid) tokens"
  by (induction tokens) (auto simp: complete_def token_event_def final_event_def)

text \<open>
  Claim C4. For every completion stream, whatever its chunks are, the content the client
  accumulates (and shows) is the concatenation, in arrival order, of the \<^verbatim>\<open>token\<close> fields
  of the chunks with \<^verbatim>\<open>done = false\<close>. On the events of the specification's
  \<^verbatim>\<open>complete\<close> that is the concatenation of all tokens produced: every event but the
  last carries a token and the owning node id, the last signals completion and carries
  the full sealed content, and a failure is the \<^verbatim>\<open>error\<close> field of that last event, the
  tokens produced before it all delivered.
\<close>

theorem streamed_content_is_token_concat:
  "(case sendMessage_loop (st\<lparr>streamingContent := []\<rparr>) chunks of
      (newAssistantNodeId, accumulated, st') \<Rightarrow>
        accumulated = concat (map token (filter (\<lambda>c. \<not> done_c c) chunks))
        \<and> streamingContent st' = accumulated)
   \<and> (let events = complete nid tokens failed in
        fst (snd (sendMessage_loop st events)) = concat tokens
        \<and> map token (butlast events) = tokens
        \<and> list_all (\<lambda>e. \<not> done_c e \<and> node_id e = nid) (butlast events)
        \<and> done_c (last events)
        \<and> full_content (last events) = Some (concat tokens)
        \<and> (error_c (last events) = Some True) = (failed \<or> concat tokens = []))"
proof -
  obtain i fc st' where run: "sendMessage_loop (st\<lparr>streamingContent := []\<rparr>) chunks = (i, fc, st')"
    by (cases "sendMessage_loop (st\<lparr>streamingContent := []\<rparr>) chunks") auto
  then have "foldl consume_chunk (None, [], st\<lparr>streamingContent := []\<rparr>) chunks = (i, fc, st')"
    by (simp add: sendMessage_loop_def)
  from foldl_consume_chunk [OF this]
  have first: "fc = concat (map token (filter (\<lambda>c. \<not> done_c c) chunks)) \<and> streamingContent st' = fc"
    by simp
  let ?ev = "complete nid tokens failed"
  obtain j gc st2 where run2: "sendMessage_loop st ?ev = (j, gc, st2)"
    by (cases "sendMessage_loop st ?ev") auto
  then have "foldl consume_chunk (None, [], st) ?ev = (j, gc, st2)"
    by (simp add: sendMessage_loop_def)
  from foldl_consume_chunk [OF this]
  have "gc = concat (map token (filter (\<lambda>c. \<not> done_c c) ?ev))" by simp
  then have acc: "fst (snd (sendMessage_loop st ?ev)) = concat tokens"
    using run2 by (simp add: complete_tokens token_event_def comp_def)
  have bl: "butlast ?ev = map (token_event nid) tokens" and la: "last ?ev = final_event nid (concat tokens) (failed \<or> concat tokens = [])"
    by (simp_all add: complete_def)
  have second: "map token (butlast ?ev) = tokens"
    "list_all (\<lambda>e. \<not> done_c e \<and> node_id e = nid) (butlast ?ev)"
    "done_c (last ?ev)" "full_content (last ?ev) = Some (concat tokens)"
    "(error_c (last ?ev) = Some True) = (failed \<or> concat tokens = [])"
    unfolding bl la
    by (simp_all add: token_event_def final_event_def comp_def list_all_iff)
  show ?thesis
    using run first acc second by (simp add: Let_def)
qed

theorem streamed_content_is_token_concat_witness:
  "fst (snd (sendMessage_loop demo_state (complete ''a9'' [''Hey'', '' you''] True))) = ''Hey you''
   \<and> full_content (last (complete ''a9'' [''Hey'', '' you''] True)) = Some ''Hey you''
   \<and> error_c (last (complete ''a9'' [''Hey'', '' you''] True)) = Some True"
  using streamed_content_is_token_concat
    [where st = demo_state and chunks = "[]" and nid = "''a9''"
       and tokens = "[''Hey'', '' you'']" and failed = True]
  by (simp add: Let_def)

lemma run_sides:
  "foldl (step_side ok) r schedule =
   r\<lparr>left := alone ok (steps_of LeftSide schedule) (left r),
     right := alone ok (steps_of RightSide schedule) (right r)\<rparr>"
proof (induction schedule arbitrary: r)
  case Nil
  then show ?case by (simp add: alone_def steps_of_def)
next
  case (Cons sd schedule)
  show ?case
  proof (cases sd)
    case LeftSide
    then show ?thesis
      using Cons [of "step_side ok r sd"]
      by (simp add: step_side_def steps_of_def alone_def funpow_swap1)
  next
    case RightSide
    then show ?thesis
      using Cons [of "step_side ok r sd"]
      by (simp add: step_side_def steps_of_def alone_def funpow_swap1)
  qed
qed

lemma alone_Suc: "alone ok (Suc k) p = alone ok k (stream_step ok p)"
  by (simp add: alone_def funpow_swap1)

lemma alone_fullContent:
  "fullContent (fst (alone ok k (task, t))) =
   (if settled task = None
    then fullContent task @ concat (map token (filter (\<lambda>c. \<not> done_c c) (take k (incoming task))))
    else fullContent task)"
proof (induction k arbitrary: task t)
  case 0
  then show ?case by (simp add: alone_def)
next
  case (Suc k)
  obtain task' t' where st: "stream_step ok (task, t) = (task', t')"
    by (cases "stream_step ok (task, t)") auto
  have rec: "fullContent (fst (alone ok (Suc k) (task, t))) = fullContent (fst (alone ok k (task', t')))"
    by (simp add: alone_Suc st)
  show ?case
  proof (cases "settled task")
    case (Some a)
    then have "task' = task" using st by (simp add: stream_step_def)
    then show ?thesis using rec Suc [of task' t'] Some by simp
  next
    case None
    show ?thesis
    proof (cases "incoming task")
      case Nil
      then have "settled task' \<noteq> None \<and> fullContent task' = fullContent task"
        using st None by (auto simp: stream_step_def split: ending.splits)
      then show ?thesis using rec Suc [of task' t'] None Nil by auto
    next
      case (Cons c rest)
      then have "settled task' = None \<and> incoming task' = rest
          \<and> fullContent task' = fullContent task @ (if done_c c then [] else token c)"
        using st None by (auto simp: stream_step_def split: if_splits)
      then show ?thesis using rec Suc [of task' t'] None Cons by simp
    qed
  qed
qed

lemma alone_settles:
  "length (incoming task) < k \<Longrightarrow> settled (fst (alone ok k (task, t))) \<noteq> None"
proof (induction k arbitrary: task t)
  case 0
  then show ?case by simp
next
  case (Suc k)
  obtain task' t' where st: "stream_step ok (task, t) = (task', t')"
    by (cases "stream_step ok (task, t)") auto
  have rec: "alone ok (Suc k) (task, t) = alone ok k (task', t')"
    by (simp add: alone_Suc st)
  have keep: "settled (fst (alone ok j (task0, t0))) \<noteq> None" if "settled task0 \<noteq> None" for j task0 t0
    using that
  proof (induction j)
    case 0
    then show ?case by (simp add: alone_def)
  next
    case (Suc j)
    have "stream_step ok (task0, t0) = (task0, t0)"
      using Suc.prems by (auto simp: stream_step_def)
    then show ?case using Suc by (simp add: alone_Suc)
  qed
  show ?case
  proof (cases "settled task")
    case (Some a)
    then show ?thesis using keep [of task "Suc k" t] by simp
  next
    case None
    show ?thesis
    proof (cases "incoming task")
      case Nil
      then have "settled task' \<noteq> None"
        using st None by (auto simp: stream_step_def split: ending.splits)
      then show ?thesis using rec keep [of task' k t'] by simp
    next
      case (Cons c rest)
      then have "incoming task' = rest"
        using st None by (auto simp: stream_step_def split: if_splits)
      then have "length (incoming task') < k" using Suc.prems Cons by simp
      then show ?thesis using rec Suc.IH [of task' t'] by simp
    qed
  qed
qed

lemma alone_settled: "settled task \<noteq> None \<Longrightarrow> alone ok k (task, t) = (task, t)"
proof (induction k)
  case 0
  then show ?case by (simp add: alone_def)
next
  case (Suc k)
  have "stream_step ok (task, t) = (task, t)"
    using Suc.prems by (auto simp: stream_step_def)
  then show ?case using Suc by (simp add: alone_Suc)
qed

lemma alone_shown:
  "settled task = None \<Longrightarrow> streamingContent_t t = fullContent task \<Longrightarrow>
   settled (fst (alone ok k (task, t))) = None \<Longrightarrow>
   streamingContent_t (snd (alone ok k (task, t))) = fullContent (fst (alone ok k (task, t)))"
proof (induction k arbitrary: task t)
  case 0
  then show ?case by (simp add: alone_def)
next
  case (Suc k)
  obtain task' t' where st: "stream_step ok (task, t) = (task', t')"
    by (cases "stream_step ok (task, t)") auto
  have rec: "alone ok (Suc k) (task, t) = alone ok k (task', t')"
    by (simp add: alone_Suc st)
  show ?case
  proof (cases "incoming task")
    case Nil
    then have "settled task' \<noteq> None"
      using st Suc.prems(1) by (auto simp: stream_step_def split: ending.splits)
    then have "alone ok k (task', t') = (task', t')" by (rule alone_settled)
    then have False using Suc.prems(3) rec \<open>settled task' \<noteq> None\<close> by simp
    then show ?thesis ..
  next
    case (Cons c rest)
    then have "settled task' = None \<and> streamingContent_t t' = fullContent task'"
      using st Suc.prems(1,2) by (auto simp: stream_step_def split: if_splits)
    then show ?thesis using Suc.IH [of task' t'] Suc.prems(3) rec by simp
  qed
qed

text \<open>
  Claim C1. In Diverge Mode the two completions are requested under the same parent id,
  read once from \<^verbatim>\<open>parentNode\<close> before either stream starts, and run concurrently:
  under every schedule of their steps, each function ends where it would have ended
  running alone for as many steps as the schedule gave it. What one stream accumulates,
  in its own \<^verbatim>\<open>fullContent\<close> and its own thread state, is the concatenation of the tokens
  of its own chunks taken so far; the chunks of the other stream, its failure and the
  order of the steps do not enter. Neither waits for the other: a function given more
  steps than its generator has chunks has settled.
\<close>

theorem diverge_streams_independent:
  assumes inputs: "trim (input_t leftThread) \<noteq> []" "trim (input_t rightThread) \<noteq> []"
    and idle: "\<not> isStreaming_t leftThread" "\<not> isStreaming_t rightThread"
  shows
    "let parentId = (case parentNode of None \<Rightarrow> None
                     | Some n \<Rightarrow> if id_n n = [] then None else Some (id_n n));
         gl = streamChat parse fetchL sessionId (input_t leftThread) parentId mdl;
         gr = streamChat parse fetchR sessionId (input_t rightThread) parentId mdl;
         kl = steps_of LeftSide schedule;
         kr = steps_of RightSide schedule
     in \<exists>r. handleSendBoth parse fetchL fetchR ok sessionId parentNode mdl schedule
               leftThread rightThread = Some r
          \<and> map request_parent (requests r) = [parentId, parentId]
          \<and> left r = alone ok kl
               (start_task gl, leftThread\<lparr>isStreaming_t := True, streamingContent_t := []\<rparr>)
          \<and> right r = alone ok kr
               (start_task gr, rightThread\<lparr>isStreaming_t := True, streamingContent_t := []\<rparr>)
          \<and> fullContent (fst (left r)) =
               concat (map token (filter (\<lambda>c. \<not> done_c c) (take kl (fst gl))))
          \<and> fullContent (fst (right r)) =
               concat (map token (filter (\<lambda>c. \<not> done_c c) (take kr (fst gr))))
          \<and> (length (fst gl) < kl \<longrightarrow> settled (fst (left r)) \<noteq> None)
          \<and> (length (fst gr) < kr \<longrightarrow> settled (fst (right r)) \<noteq> None)
          \<and> (settled (fst (left r)) = None \<longrightarrow>
                streamingContent_t (snd (left r)) = fullContent (fst (left r)))
          \<and> (settled (fst (right r)) = None \<longrightarrow>
                streamingContent_t (snd (right r)) = fullContent (fst (right r)))"
proof -
  define parentId where "parentId = (case parentNode of None \<Rightarrow> None
                     | Some n \<Rightarrow> if id_n n = [] then None else Some (id_n n))"
  define gl where "gl = streamChat parse fetchL sessionId (input_t leftThread) parentId mdl"
  define gr where "gr = streamChat parse fetchR sessionId (input_t rightThread) parentId mdl"
  define l0 where "l0 = (start_task gl, leftThread\<lparr>isStreaming_t := True, streamingContent_t := []\<rparr>)"
  define r0 where "r0 = (start_task gr, rightThread\<lparr>isStreaming_t := True, streamingContent_t := []\<rparr>)"
  define kl where "kl = steps_of LeftSide schedule"
  define kr where "kr = steps_of RightSide schedule"
  define start where "start =
     \<lparr>requests =
        [ChatCompletions sessionId parentId (input_t leftThread) mdl,
         ChatCompletions sessionId parentId (input_t rightThread) mdl],
      left = l0, right = r0\<rparr>"
  define r where "r = foldl (step_side ok) start schedule"
  have run: "handleSendBoth parse fetchL fetchR ok sessionId parentNode mdl schedule
               leftThread rightThread = Some r"
    using inputs idle
    by (simp add: handleSendBoth_def Let_def r_def start_def l0_def r0_def gl_def gr_def
        parentId_def)
  have r: "r = start\<lparr>left := alone ok kl l0, right := alone ok kr r0\<rparr>"
    unfolding r_def kl_def kr_def using run_sides [of ok start schedule]
    by (simp add: start_def)
  have reqs: "map request_parent (requests r) = [parentId, parentId]"
    by (simp add: r start_def request_parent_def)
  have lr: "left r = alone ok kl l0" and rr: "right r = alone ok kr r0"
    by (simp_all add: r)
  have lc: "fullContent (fst (left r)) =
        concat (map token (filter (\<lambda>c. \<not> done_c c) (take kl (fst gl))))"
    unfolding lr l0_def by (simp add: alone_fullContent start_task_def)
  have rc: "fullContent (fst (right r)) =
        concat (map token (filter (\<lambda>c. \<not> done_c c) (take kr (fst gr))))"
    unfolding rr r0_def by (simp add: alone_fullContent start_task_def)
  have ls: "length (fst gl) < kl \<longrightarrow> settled (fst (left r)) \<noteq> None"
    unfolding lr l0_def using alone_settles [of "start_task gl" kl ok]
    by (simp add: start_task_def)
  have rs: "length (fst gr) < kr \<longrightarrow> settled (fst (right r)) \<noteq> None"
    unfolding rr r0_def using alone_settles [of "start_task gr" kr ok]
    by (simp add: start_task_def)
  have lv: "settled (fst (left r)) = None \<longrightarrow>
        streamingContent_t (snd (left r)) = fullContent (fst (left r))"
    unfolding lr l0_def
    using alone_shown [of "start_task gl" "leftThread\<lparr>isStreaming_t := True, streamingContent_t := []\<rparr>" ok kl]
    by (simp add: start_task_def)
  have rv: "settled (fst (right r)) = None \<longrightarrow>
        streamingContent_t (snd (right r)) = fullContent (fst (right r))"
    unfolding rr r0_def
    using alone_shown [of "start_task gr" "rightThread\<lparr>isStreaming_t := True, streamingContent_t := []\<rparr>" ok kr]
    by (simp add: start_task_def)
  have "\<exists>r. handleSendBoth parse fetchL fetchR ok sessionId parentNode mdl schedule
               leftThread rightThread = Some r
          \<and> map request_parent (requests r) = [parentId, parentId]
          \<and> left r = alone ok kl
               (start_task gl, leftThread\<lparr>isStreaming_t := True, streamingContent_t := []\<rparr>)
          \<and> right r = alone ok kr
               (start_task gr, rightThread\<lparr>isStreaming_t := True, streamingContent_t := []\<rparr>)
          \<and> fullContent (fst (left r)) =
               concat (map token (filter (\<lambda>c. \<not> done_c c) (take kl (fst gl))))
          \<and> fullContent (fst (right r)) =
               concat (map token (filter (\<lambda>c. \<not> done_c c) (take kr (fst gr))))
          \<and> (length (fst gl) < kl \<longrightarrow> settled (fst (left r)) \<noteq> None)
          \<and> (length (fst gr) < kr \<longrightarrow> settled (fst (right r)) \<noteq> None)
          \<and> (settled (fst (left r)) = None \<longrightarrow>
                streamingContent_t (snd (left r)) = fullContent (fst (left r)))
          \<and> (settled (fst (right r)) = None \<longrightarrow>
                streamingContent_t (snd (right r)) = fullContent (fst (right r)))"
    using run reqs lr [unfolded l0_def] rr [unfolded r0_def] lc rc ls rs lv rv
    by (intro exI [of _ r] conjI)
  then show ?thesis
    unfolding Let_def gl_def gr_def kl_def kr_def parentId_def .
qed

theorem diverge_streams_independent_witness:
  "\<exists>r. handleSendBoth demo_parse demo_fetchL demo_fetchR True ''s1''
          (Some (demo_node ''a0'' (Some ''u1'') Assistant ''2024-05-01T10:00:02'')) ''gemma3:4b''
          demo_schedule (demo_thread ''first prompt'') (demo_thread ''second prompt'') = Some r
     \<and> map request_parent (requests r) = [Some ''a0'', Some ''a0'']
     \<and> settled (fst (left r)) = Some Rejected
     \<and> settled (fst (right r)) = None
     \<and> fullContent (fst (right r)) = ''Hi you''
     \<and> streamingContent_t (snd (right r)) = ''Hi you''"
proof -
  let ?p = "demo_node ''a0'' (Some ''u1'') Assistant ''2024-05-01T10:00:02''"
  have inputs: "trim (input_t (demo_thread ''first prompt'')) \<noteq> []"
    "trim (input_t (demo_thread ''second prompt'')) \<noteq> []"
    by (simp_all add: demo_thread_def trim_def isWhiteSpace_def)
  have idle: "\<not> isStreaming_t (demo_thread ''first prompt'')"
    "\<not> isStreaming_t (demo_thread ''second prompt'')"
    by (simp_all add: demo_thread_def)
  have gl: "streamChat demo_parse demo_fetchL ''s1'' ''first prompt'' (Some ''a0'') ''gemma3:4b'' =
      ([token_event ''a1'' ''Hey''], Threw)"
    by (simp add: streamChat_def read_response_def demo_fetchL_def pop_def yield_lines_def
        trim_def isWhiteSpace_def demo_parse_def newline_def)
  have gr: "streamChat demo_parse demo_fetchR ''s1'' ''second prompt'' (Some ''a0'') ''gemma3:4b'' =
      ([token_event ''a2'' ''Hi'', token_event ''a2'' '' you'', final_event ''a2'' ''Hi you'' False],
       Returned)"
    by (simp add: streamChat_def read_response_def demo_fetchR_def pop_def yield_lines_def
        trim_def isWhiteSpace_def demo_parse_def newline_def)
  have k: "steps_of LeftSide demo_schedule = Suc (Suc 0)"
    "steps_of RightSide demo_schedule = Suc (Suc (Suc 0))"
    by (simp_all add: steps_of_def demo_schedule_def)
  have pid: "(case Some ?p of None \<Rightarrow> None
               | Some n \<Rightarrow> if id_n n = [] then None else Some (id_n n)) = Some ''a0''"
    by (simp add: demo_node_def)
  have l: "alone True (Suc (Suc 0))
        (start_task ([token_event ''a1'' ''Hey''], Threw),
         demo_thread ''first prompt''\<lparr>isStreaming_t := True, streamingContent_t := []\<rparr>) =
      (\<lparr>incoming = [], ends = Threw, fullContent = ''Hey'', refreshed = False,
         settled = Some Rejected\<rparr>,
       \<lparr>input_t = [], messages_t = [], isStreaming_t = False, streamingContent_t = []\<rparr>)"
    by (simp add: alone_def stream_step_def start_task_def token_event_def demo_thread_def
        finally_t_def)
  have r: "alone True (Suc (Suc (Suc 0)))
        (start_task ([token_event ''a2'' ''Hi'', token_event ''a2'' '' you'',
                      final_event ''a2'' ''Hi you'' False], Returned),
         demo_thread ''second prompt''\<lparr>isStreaming_t := True, streamingContent_t := []\<rparr>) =
      (\<lparr>incoming = [], ends = Returned, fullContent = ''Hi you'', refreshed = False,
         settled = None\<rparr>,
       \<lparr>input_t = ''second prompt'', messages_t = [], isStreaming_t = True,
          streamingContent_t = ''Hi you''\<rparr>)"
    by (simp add: alone_def stream_step_def start_task_def token_event_def final_event_def
        demo_thread_def)
  have inp: "input_t (demo_thread x) = x" for x
    by (simp add: demo_thread_def)
  from diverge_streams_independent [OF inputs idle, of "Some ?p" demo_parse demo_fetchL "''s1''"
      "''gemma3:4b''" demo_fetchR demo_schedule True]
  show ?thesis
    unfolding Let_def inp pid gl gr k l r by auto
qed

end
